theory Spec2Isabelle
  imports Main "HOL-Library.Word"
begin

unbundle bit_operations_syntax

section \<open>Topology Calculator\<close>

text \<open>
  \<open>ReadTreeDataset\<close> reads its entity counts from \<open>dp.nAryTree.numberOfNodes\<close>,
  \<open>dp.numTables\<close> and \<open>dp.numViews\<close>. The classes computing them
  (\<open>DatasetParameters\<close>, \<open>NAryTreeBuilder\<close>) are not among the source files, so the
  calculator below follows section 4.1 of the specification, over unbounded integers.
\<close>

datatype topology_error = InvalidParameter | TopologyOverflow

record ShapeParameters =
  numCatalogs :: int
  treeWidth :: int
  treeDepth :: int
  tablesPerLeaf :: int
  viewsPerLeaf :: int
  maxTables :: int
  maxViews :: int
  mangleNames :: bool

record Topology =
  totalNamespaces :: int
  totalTables :: int
  totalViews :: int

text \<open>Modelled from the spec: \<open>NAryTreeBuilder.numberOfNodes\<close>, the number of namespaces
  of the complete \<open>N\<close>-ary tree of depth \<open>D\<close>: \<open>(N^D - 1) / (N - 1)\<close> when \<open>N > 1\<close>, else \<open>D\<close>.\<close>
definition numberOfNodes :: "int \<Rightarrow> int \<Rightarrow> int" where
  "numberOfNodes N D = (if N > 1 then (N ^ nat D - 1) div (N - 1) else D)"

text \<open>Modelled from the spec: the number of leaf namespaces, \<open>N^(D-1)\<close>.\<close>
definition numberOfLeaves :: "int \<Rightarrow> int \<Rightarrow> int" where
  "numberOfLeaves N D = N ^ nat (D - 1)"

text \<open>Modelled from the spec: \<open>DatasetParameters.numTables\<close> and \<open>numViews\<close>,
  \<open>min(N^(D-1) * T, cap if capped else \<infinity>)\<close> with \<open>-1\<close> the uncapped sentinel.\<close>
definition cappedCount :: "int \<Rightarrow> int \<Rightarrow> int \<Rightarrow> int \<Rightarrow> int" where
  "cappedCount N D perLeaf cap =
     (if cap = -1 then numberOfLeaves N D * perLeaf
      else min (numberOfLeaves N D * perLeaf) cap)"

text \<open>Modelled from the spec: a cap is the sentinel \<open>-1\<close> or not below zero.\<close>
definition validCap :: "int \<Rightarrow> bool" where
  "validCap cap = (cap = -1 \<or> 0 \<le> cap)"

text \<open>Modelled from the spec: the Topology Calculator's contract, failing with
  \<open>InvalidParameter\<close> when \<open>N < 1\<close>, \<open>D < 1\<close> or a cap is below zero other than \<open>-1\<close>.\<close>
definition topologyCalculator :: "ShapeParameters \<Rightarrow> topology_error + Topology" where
  "topologyCalculator p =
     (if treeWidth p < 1 \<or> treeDepth p < 1 \<or> \<not> validCap (maxTables p) \<or> \<not> validCap (maxViews p)
      then Inl InvalidParameter
      else Inr \<lparr> totalNamespaces = numberOfNodes (treeWidth p) (treeDepth p),
                 totalTables = cappedCount (treeWidth p) (treeDepth p) (tablesPerLeaf p) (maxTables p),
                 totalViews = cappedCount (treeWidth p) (treeDepth p) (viewsPerLeaf p) (maxViews p) \<rparr>)"

text \<open>The shape with the given width, depth, tables and views per leaf, and caps.\<close>
definition shape :: "int \<Rightarrow> int \<Rightarrow> int \<Rightarrow> int \<Rightarrow> int \<Rightarrow> int \<Rightarrow> ShapeParameters" where
  "shape N D T V mt mv =
     \<lparr> numCatalogs = 1, treeWidth = N, treeDepth = D, tablesPerLeaf = T, viewsPerLeaf = V,
       maxTables = mt, maxViews = mv, mangleNames = False \<rparr>"

section \<open>Entity namer and mangler (\<open>Mangler.scala\<close>)\<close>

type_synonym byte = "8 word"
type_synonym u32 = "32 word"
type_synonym int32 = "32 word"

subsection \<open>\<open>java.security.MessageDigest\<close> for MD5 (RFC 1321)\<close>

definition md5_K :: "u32 list" where
  "md5_K =
   [0xd76aa478, 0xe8c7b756, 0x242070db, 0xc1bdceee,
    0xf57c0faf, 0x4787c62a, 0xa8304613, 0xfd469501,
    0x698098d8, 0x8b44f7af, 0xffff5bb1, 0x895cd7be,
    0x6b901122, 0xfd987193, 0xa679438e, 0x49b40821,
    0xf61e2562, 0xc040b340, 0x265e5a51, 0xe9b6c7aa,
    0xd62f105d, 0x02441453, 0xd8a1e681, 0xe7d3fbc8,
    0x21e1cde6, 0xc33707d6, 0xf4d50d87, 0x455a14ed,
    0xa9e3e905, 0xfcefa3f8, 0x676f02d9, 0x8d2a4c8a,
    0xfffa3942, 0x8771f681, 0x6d9d6122, 0xfde5380c,
    0xa4beea44, 0x4bdecfa9, 0xf6bb4b60, 0xbebfbc70,
    0x289b7ec6, 0xeaa127fa, 0xd4ef3085, 0x04881d05,
    0xd9d4d039, 0xe6db99e5, 0x1fa27cf8, 0xc4ac5665,
    0xf4292244, 0x432aff97, 0xab9423a7, 0xfc93a039,
    0x655b59c3, 0x8f0ccc92, 0xffeff47d, 0x85845dd1,
    0x6fa87e4f, 0xfe2ce6e0, 0xa3014314, 0x4e0811a1,
    0xf7537e82, 0xbd3af235, 0x2ad7d2bb, 0xeb86d391]"

definition md5_s :: "nat list" where
  "md5_s =
   [7, 12, 17, 22, 7, 12, 17, 22, 7, 12, 17, 22, 7, 12, 17, 22,
    5, 9, 14, 20, 5, 9, 14, 20, 5, 9, 14, 20, 5, 9, 14, 20,
    4, 11, 16, 23, 4, 11, 16, 23, 4, 11, 16, 23, 4, 11, 16, 23,
    6, 10, 15, 21, 6, 10, 15, 21, 6, 10, 15, 21, 6, 10, 15, 21]"

definition rotl32 :: "u32 \<Rightarrow> nat \<Rightarrow> u32" where
  "rotl32 x n = push_bit n x OR drop_bit (32 - n) x"

definition le32 :: "byte list \<Rightarrow> u32" where
  "le32 bs = foldr (\<lambda>b acc. push_bit 8 acc OR ucast b) bs 0"

definition le_bytes32 :: "u32 \<Rightarrow> byte list" where
  "le_bytes32 w = map (\<lambda>i. ucast (drop_bit (8 * i) w)) [0..<4]"

definition le_bytes64 :: "64 word \<Rightarrow> byte list" where
  "le_bytes64 w = map (\<lambda>i. ucast (drop_bit (8 * i) w)) [0..<8]"

text \<open>Padding: a one bit, zeros up to 56 modulo 64 bytes, then the length in bits as a
  64-bit little-endian number.\<close>
definition md5_pad :: "byte list \<Rightarrow> byte list" where
  "md5_pad m =
     m @ [0x80] @ replicate ((119 - length m mod 64) mod 64) 0
       @ le_bytes64 (8 * of_nat (length m))"

definition md5_blocks :: "byte list \<Rightarrow> byte list list" where
  "md5_blocks p = map (\<lambda>i. take 64 (drop (64 * i) p)) [0..<length p div 64]"

definition md5_words :: "byte list \<Rightarrow> u32 list" where
  "md5_words blk = map (\<lambda>j. le32 (take 4 (drop (4 * j) blk))) [0..<16]"

type_synonym md5_state = "u32 \<times> u32 \<times> u32 \<times> u32"

definition md5_step :: "u32 list \<Rightarrow> md5_state \<Rightarrow> nat \<Rightarrow> md5_state" where
  "md5_step M st i =
     (case st of (a, b, c, d) \<Rightarrow>
        let (f, g) =
              (if i < 16 then ((b AND c) OR (NOT b AND d), i)
               else if i < 32 then ((d AND b) OR (NOT d AND c), (5 * i + 1) mod 16)
               else if i < 48 then (b XOR c XOR d, (3 * i + 5) mod 16)
               else (c XOR (b OR NOT d), (7 * i) mod 16));
            f' = f + a + md5_K ! i + M ! g
        in (d, b + rotl32 f' (md5_s ! i), b, c))"

definition md5_block :: "md5_state \<Rightarrow> byte list \<Rightarrow> md5_state" where
  "md5_block st blk =
     (case st of (a0, b0, c0, d0) \<Rightarrow>
        case foldl (md5_step (md5_words blk)) st [0..<64] of
          (a, b, c, d) \<Rightarrow> (a0 + a, b0 + b, c0 + c, d0 + d))"

definition md5_init :: md5_state where
  "md5_init = (0x67452301, 0xefcdab89, 0x98badcfe, 0x10325476)"

definition md5 :: "byte list \<Rightarrow> byte list" where
  "md5 m =
     (case foldl md5_block md5_init (md5_blocks (md5_pad m)) of
        (a, b, c, d) \<Rightarrow> le_bytes32 a @ le_bytes32 b @ le_bytes32 c @ le_bytes32 d)"

text \<open>
  A \<open>MessageDigest\<close> instance is a mutable object: \<open>update\<close> feeds it bytes, \<open>digest()\<close>
  completes the hash of everything fed since the last reset and resets it, and
  \<open>digest(input)\<close> is \<open>update(input)\<close> followed by \<open>digest()\<close>. Its state is the bytes fed
  since the last reset.
\<close>
type_synonym MessageDigest = "byte list"

definition MessageDigest_getInstance :: MessageDigest where
  "MessageDigest_getInstance = []"

definition MessageDigest_update :: "MessageDigest \<Rightarrow> byte list \<Rightarrow> MessageDigest" where
  "MessageDigest_update eng input = eng @ input"

definition MessageDigest_digest :: "MessageDigest \<Rightarrow> byte list \<times> MessageDigest" where
  "MessageDigest_digest eng = (md5 eng, [])"

definition MessageDigest_digest_input :: "MessageDigest \<Rightarrow> byte list \<Rightarrow> byte list \<times> MessageDigest" where
  "MessageDigest_digest_input eng input = MessageDigest_digest (MessageDigest_update eng input)"

subsection \<open>Strings of the JVM\<close>

text \<open>\<open>String.getBytes()\<close> on the ASCII names built here is one byte per character.\<close>
definition getBytes :: "string \<Rightarrow> byte list" where
  "getBytes s = map of_char s"

definition digit_char :: "nat \<Rightarrow> char" where
  "digit_char d = ''0123456789'' ! d"

fun nat_toString :: "nat \<Rightarrow> string" where
  "nat_toString n = (if n < 10 then [digit_char n] else nat_toString (n div 10) @ [digit_char (n mod 10)])"

declare nat_toString.simps [simp del]

text \<open>\<open>Integer.toString\<close>, which string concatenation applies to an \<open>Int\<close>: the decimal
  digits of the two's-complement value, with a minus sign when it is negative.\<close>
definition Integer_toString :: "int32 \<Rightarrow> string" where
  "Integer_toString n =
     (if sint n < 0 then CHR ''-'' # nat_toString (nat (- sint n)) else nat_toString (nat (sint n)))"

definition hex_digit :: "nat \<Rightarrow> char" where
  "hex_digit n = ''0123456789abcdef'' ! n"

text \<open>\<open>"%02x".format(b)\<close> for a \<open>Byte\<close>: two lowercase hexadecimal digits of the unsigned
  value of the byte.\<close>
definition format_02x :: "byte \<Rightarrow> string" where
  "format_02x b = [hex_digit (unat b div 16), hex_digit (unat b mod 16)]"

subsection \<open>\<open>case class Mangler(enabled: Boolean)\<close>\<close>

record Mangler =
  enabled :: bool
  MD5 :: MessageDigest

definition new_Mangler :: "bool \<Rightarrow> Mangler" where
  "new_Mangler e = \<lparr> enabled = e, MD5 = MessageDigest_getInstance \<rparr>"

definition maybeMangle :: "Mangler \<Rightarrow> string \<Rightarrow> int32 \<Rightarrow> string \<times> Mangler" where
  "maybeMangle m prefix ordinal =
     (if enabled m then
        (case MessageDigest_digest_input (MD5 m) (getBytes (prefix @ Integer_toString ordinal)) of
           (d, eng) \<Rightarrow> (concat (map format_02x d), m\<lparr>MD5 := eng\<rparr>))
      else (prefix @ Integer_toString ordinal, m))"

definition maybeMangleNs :: "Mangler \<Rightarrow> int32 \<Rightarrow> string \<times> Mangler" where
  "maybeMangleNs m ordinal = maybeMangle m ''NS_'' ordinal"

definition maybeMangleTable :: "Mangler \<Rightarrow> int32 \<Rightarrow> string \<times> Mangler" where
  "maybeMangleTable m ordinal = maybeMangle m ''T_'' ordinal"

definition maybeMangleView :: "Mangler \<Rightarrow> int32 \<Rightarrow> string \<times> Mangler" where
  "maybeMangleView m ordinal = maybeMangle m ''V_'' ordinal"

text \<open>Modelled from the spec: the name of a catalog. It is built in \<open>CatalogActions\<close>,
  which is not among the source files: a prefix supplied by the caller followed by the
  ordinal, without consulting the mangler.\<close>
definition catalog_name :: "Mangler \<Rightarrow> string \<Rightarrow> int32 \<Rightarrow> string \<times> Mangler" where
  "catalog_name m catalogNameBase ordinal = (catalogNameBase @ Integer_toString ordinal, m)"

text \<open>The mangler after a sequence of earlier calls, made one after the other.\<close>
definition mangler_after :: "Mangler \<Rightarrow> (string \<times> int32) list \<Rightarrow> Mangler" where
  "mangler_after m calls = foldl (\<lambda>m' (p, n). snd (maybeMangle m' p n)) m calls"

definition is_lower_hex :: "char \<Rightarrow> bool" where
  "is_lower_hex c = (c \<in> set ''0123456789abcdef'')"

definition is_digit :: "char \<Rightarrow> bool" where
  "is_digit c = (c \<in> set ''0123456789'')"

text \<open>The number a string of decimal digits denotes.\<close>
definition decimal_value :: "string \<Rightarrow> nat" where
  "decimal_value ds = foldl (\<lambda>acc c. 10 * acc + (of_char c - 48)) 0 ds"

subsection \<open>Callers sharing one mangler\<close>

text \<open>
  \<open>MD5\<close> is a field of the mangler, so every caller of one mangler uses the same
  \<open>MessageDigest\<close> instance, whose \<open>digest(input)\<close> is \<open>update(input)\<close> followed by
  \<open>digest()\<close> with no synchronisation. A caller inside \<open>maybeMangle\<close> is therefore at one of
  three points: about to feed its bytes, having fed them, or returned with its name.
  A schedule lists which caller takes the next step.
\<close>
datatype caller = Calling string int32 | Fed | Returned string

definition caller_step :: "Mangler \<times> caller list \<Rightarrow> nat \<Rightarrow> Mangler \<times> caller list" where
  "caller_step st i =
     (case st of (m, cs) \<Rightarrow>
        if i < length cs then
          (case cs ! i of
             Calling p n \<Rightarrow>
               if enabled m
               then (m\<lparr>MD5 := MessageDigest_update (MD5 m) (getBytes (p @ Integer_toString n))\<rparr>,
                     cs[i := Fed])
               else (m, cs[i := Returned (p @ Integer_toString n)])
           | Fed \<Rightarrow>
               (case MessageDigest_digest (MD5 m) of
                  (d, eng) \<Rightarrow> (m\<lparr>MD5 := eng\<rparr>, cs[i := Returned (concat (map format_02x d))]))
           | Returned s \<Rightarrow> (m, cs))
        else (m, cs))"

definition concurrent_calls :: "Mangler \<Rightarrow> (string \<times> int32) list \<Rightarrow> nat list \<Rightarrow> caller list" where
  "concurrent_calls m calls sched =
     snd (foldl caller_step (m, map (\<lambda>(p, n). Calling p n) calls) sched)"

section \<open>Verification phases (\<open>ReadTreeDataset.scala\<close>)\<close>

text \<open>
  Each of the four workloads has one \<open>AtomicInteger\<close> and the same shape: a virtual user
  restores the access token into its session and then loops
  \<open>asLongAs (counter.getAndIncrement() < target && session.contains("accessToken"))\<close>
  over a body that feeds the next record and issues the requests for it. The loop condition
  is evaluated once before each iteration; several virtual users of a workload share the
  counter and the feeder, and their steps interleave.
\<close>

type_synonym AtomicInteger = int32

definition getAndIncrement :: "AtomicInteger \<Rightarrow> int32 \<times> AtomicInteger" where
  "getAndIncrement c = (c, c + 1)"

datatype location = AtCondition | InBody | Exited

record virtual_user =
  accessToken :: bool
  at :: location

record phase =
  counter :: AtomicInteger
  feeder :: nat
  visited :: "nat list"
  users :: "virtual_user list"

text \<open>A run of a phase fails when a user in the loop body asks the feeder for a record and
  the feeder is used up: Gatling then stops the run.\<close>
datatype run_error = FeederEmpty

text \<open>Modelled from the spec: the feeder of a phase (\<open>catalogActions.feeder()\<close>,
  \<open>namespaceFetchFeeder()\<close>, \<open>tableFetchFeeder()\<close>, \<open>viewFetchFeeder()\<close>), the Dataset
  Walker in enumeration mode: a finite sequence of the ordinals \<open>0..count-1\<close> in increasing
  order. \<open>feed\<close> hands out the next ordinal, or nothing once the sequence is used up.\<close>
definition feed :: "nat \<Rightarrow> nat \<Rightarrow> (nat \<times> nat) option" where
  "feed count pos = (if pos < count then Some (pos, pos + 1) else None)"

text \<open>The loop condition: \<open>getAndIncrement\<close> is on the left of \<open>&&\<close>, so the counter is
  incremented whether or not the session holds the token.\<close>
definition asLongAs_condition :: "int32 \<Rightarrow> AtomicInteger \<Rightarrow> virtual_user \<Rightarrow> bool \<times> AtomicInteger" where
  "asLongAs_condition target c u =
     (case getAndIncrement c of (v, c') \<Rightarrow> (sint v < sint target \<and> accessToken u, c'))"

text \<open>One step of virtual user \<open>i\<close>: at the loop condition it claims and either enters the
  body or leaves the loop; in the body it is fed the next ordinal (recorded in \<open>visited\<close>),
  issues its requests, which touch neither the counter nor the feeder, and returns to the
  condition. A user in the body that finds the feeder used up makes the run fail.\<close>
definition user_step :: "int32 \<Rightarrow> phase \<Rightarrow> nat \<Rightarrow> run_error + phase" where
  "user_step target s i =
     (if i < length (users s) then
        (let u = users s ! i in
         case at u of
           AtCondition \<Rightarrow>
             (case asLongAs_condition target (counter s) u of
                (continue, c') \<Rightarrow>
                  Inr (s\<lparr>counter := c',
                         users := (users s)[i := u\<lparr>at := (if continue then InBody else Exited)\<rparr>]\<rparr>))
         | InBody \<Rightarrow>
             (case feed (nat (sint target)) (feeder s) of
                Some (ordinal, pos') \<Rightarrow>
                  Inr (s\<lparr>feeder := pos', visited := visited s @ [ordinal],
                         users := (users s)[i := u\<lparr>at := AtCondition\<rparr>]\<rparr>)
              | None \<Rightarrow> Inl FeederEmpty)
         | Exited \<Rightarrow> Inr s)
      else Inr s)"

text \<open>A phase starts with a fresh counter and feeder and one user per injected session,
  each at the loop condition; \<open>tokens\<close> says which sessions hold the access token.\<close>
definition phase_start :: "bool list \<Rightarrow> phase" where
  "phase_start tokens =
     \<lparr> counter = 0, feeder = 0, visited = [],
       users = map (\<lambda>t. \<lparr> accessToken = t, at = AtCondition \<rparr>) tokens \<rparr>"

text \<open>A run under a schedule, which lists the user taking each step; it ends at the first
  failure.\<close>
fun run_phase :: "int32 \<Rightarrow> phase \<Rightarrow> nat list \<Rightarrow> run_error + phase" where
  "run_phase target s [] = Inr s"
| "run_phase target s (i # sched) =
     (case user_step target s i of
        Inl e \<Rightarrow> Inl e
      | Inr s' \<Rightarrow> run_phase target s' sched)"

text \<open>A phase has finished when every user has left the loop.\<close>
definition phase_finished :: "phase \<Rightarrow> bool" where
  "phase_finished s = list_all (\<lambda>u. at u = Exited) (users s)"

text \<open>A schedule is live when every step it names is taken by a user still in the loop and
  does not fail.\<close>
fun live_schedule :: "int32 \<Rightarrow> phase \<Rightarrow> nat list \<Rightarrow> bool" where
  "live_schedule target s [] = True"
| "live_schedule target s (i # sched) =
     (i < length (users s) \<and> at (users s ! i) \<noteq> Exited
      \<and> (case user_step target s i of
            Inl e \<Rightarrow> False
          | Inr s' \<Rightarrow> live_schedule target s' sched))"

definition count_at :: "location \<Rightarrow> virtual_user list \<Rightarrow> nat" where
  "count_at l us = length (filter (\<lambda>u. at u = l) us)"

text \<open>The number of loop conditions evaluated so far, read off the state: every evaluation
  left its user in the body or out of the loop, and every body run ended with a visit.\<close>
definition claims :: "phase \<Rightarrow> nat" where
  "claims s = length (visited s) + count_at InBody (users s) + count_at Exited (users s)"

subsection \<open>Invariants of a phase\<close>

text \<open>What every state reached by a run satisfies: the ordinals visited are those the
  feeder has handed out, in order; the feeder never goes past its count; and the counter is
  the number of claims made, modulo \<open>2^32\<close>.\<close>
definition phase_inv :: "int32 \<Rightarrow> phase \<Rightarrow> bool" where
  "phase_inv target s =
     (visited s = [0..<feeder s]
      \<and> feeder s \<le> nat (sint target) \<and> counter s = of_nat (claims s))"



text \<open>While the counter has not wrapped around, no more users have entered the body than
  there are ordinals.\<close>
definition within_target :: "int32 \<Rightarrow> phase \<Rightarrow> bool" where
  "within_target target s =
     (length (visited s) + count_at InBody (users s) \<le> nat (sint target))"

text \<open>What holds of every state reached while the entities and the users together do not
  exceed \<open>2^31\<close>.\<close>
definition no_wrap_inv :: "int32 \<Rightarrow> bool list \<Rightarrow> phase \<Rightarrow> bool" where
  "no_wrap_inv target tokens s =
     (phase_inv target s \<and> within_target target s \<and> map accessToken (users s) = tokens)"

section \<open>Views API of the console (\<open>api/catalog/views.ts\<close>)\<close>

text \<open>JavaScript strings are sequences of UTF-16 code units.\<close>
type_synonym js_string = "16 word list"

definition js :: "string \<Rightarrow> js_string" where
  "js s = map of_char s"

datatype js_error = URIError

subsection \<open>\<open>encodeURIComponent\<close> and \<open>Array.prototype.join\<close> (ECMA-262)\<close>

text \<open>The characters \<open>encodeURIComponent\<close> leaves as they are: letters, digits and
  \<open>- _ . ! ~ * ' ( )\<close>.\<close>
definition uri_unreserved :: "16 word \<Rightarrow> bool" where
  "uri_unreserved c =
     (c \<in> set (js ''ABCDEFGHIJKLMNOPQRSTUVWXYZabcdefghijklmnopqrstuvwxyz0123456789-_.!~*()'')
      \<or> c = 0x27)"

definition is_surrogate :: "16 word \<Rightarrow> bool" where
  "is_surrogate c = (0xD800 \<le> unat c \<and> unat c \<le> 0xDFFF)"

definition is_trailing_surrogate :: "16 word \<Rightarrow> bool" where
  "is_trailing_surrogate c = (0xDC00 \<le> unat c \<and> unat c \<le> 0xDFFF)"

definition utf8_encode :: "nat \<Rightarrow> byte list" where
  "utf8_encode cp =
     (if cp < 0x80 then [of_nat cp]
      else if cp < 0x800 then [of_nat (0xC0 + cp div 64), of_nat (0x80 + cp mod 64)]
      else if cp < 0x10000 then
        [of_nat (0xE0 + cp div 4096), of_nat (0x80 + (cp div 64) mod 64), of_nat (0x80 + cp mod 64)]
      else
        [of_nat (0xF0 + cp div 262144), of_nat (0x80 + (cp div 4096) mod 64),
         of_nat (0x80 + (cp div 64) mod 64), of_nat (0x80 + cp mod 64)])"

definition upper_hex_digit :: "nat \<Rightarrow> char" where
  "upper_hex_digit n = ''0123456789ABCDEF'' ! n"

definition percent_octet :: "byte \<Rightarrow> js_string" where
  "percent_octet b = js [CHR ''%'', upper_hex_digit (unat b div 16), upper_hex_digit (unat b mod 16)]"

definition percent_escape :: "nat \<Rightarrow> js_string" where
  "percent_escape cp = concat (map percent_octet (utf8_encode cp))"

definition surrogate_pair :: "16 word \<Rightarrow> 16 word \<Rightarrow> nat" where
  "surrogate_pair lead trail = (unat lead - 0xD800) * 0x400 + (unat trail - 0xDC00) + 0x10000"

definition then_append :: "js_string \<Rightarrow> js_error + js_string \<Rightarrow> js_error + js_string" where
  "then_append a r = (case r of Inl e \<Rightarrow> Inl e | Inr b \<Rightarrow> Inr (a @ b))"

text \<open>\<open>encodeURIComponent\<close>: unreserved code units are copied, any other code point is
  written as the percent-escaped octets of its UTF-8 encoding, and a surrogate without its
  partner throws \<open>URIError\<close>.\<close>
fun encodeURIComponent :: "js_string \<Rightarrow> js_error + js_string" where
  "encodeURIComponent [] = Inr []"
| "encodeURIComponent (c # cs) =
     (if uri_unreserved c then then_append [c] (encodeURIComponent cs)
      else if \<not> is_surrogate c then then_append (percent_escape (unat c)) (encodeURIComponent cs)
      else if is_trailing_surrogate c then Inl URIError
      else (case cs of
              [] \<Rightarrow> Inl URIError
            | d # ds \<Rightarrow>
                if is_trailing_surrogate d
                then then_append (percent_escape (surrogate_pair c d)) (encodeURIComponent ds)
                else Inl URIError))"

fun join :: "js_string \<Rightarrow> js_string list \<Rightarrow> js_string" where
  "join sep [] = []"
| "join sep [x] = x"
| "join sep (x # y # ys) = x @ sep @ join sep (y # ys)"

subsection \<open>\<open>viewsApi\<close>\<close>

definition encodeNamespace :: "js_string list \<Rightarrow> js_string" where
  "encodeNamespace namespace = join [0x1F] namespace"

datatype http_method = GET | POST | DELETE

record 'b http_request =
  http_method :: http_method
  url :: js_string
  body :: "'b option"

text \<open>The URL templates. A template literal evaluates its substitutions from left to
  right, and an exception in one of them leaves the function before any request is made.\<close>
definition views_url :: "js_string \<Rightarrow> js_string \<Rightarrow> js_error + js_string" where
  "views_url prefix namespaceStr =
     (case encodeURIComponent prefix of
        Inl e \<Rightarrow> Inl e
      | Inr p \<Rightarrow>
          (case encodeURIComponent namespaceStr of
             Inl e \<Rightarrow> Inl e
           | Inr n \<Rightarrow> Inr (js ''/'' @ p @ js ''/namespaces/'' @ n @ js ''/views'')))"

definition view_url :: "js_string \<Rightarrow> js_string \<Rightarrow> js_string \<Rightarrow> js_error + js_string" where
  "view_url prefix namespaceStr viewName =
     (case encodeURIComponent prefix of
        Inl e \<Rightarrow> Inl e
      | Inr p \<Rightarrow>
          (case encodeURIComponent namespaceStr of
             Inl e \<Rightarrow> Inl e
           | Inr n \<Rightarrow>
               (case encodeURIComponent viewName of
                  Inl e \<Rightarrow> Inl e
                | Inr v \<Rightarrow> Inr (js ''/'' @ p @ js ''/namespaces/'' @ n @ js ''/views/'' @ v))))"

text \<open>The request each operation sends to the catalog client, or the exception it throws
  before sending one.\<close>
definition viewsApi_list :: "js_string \<Rightarrow> js_string list \<Rightarrow> js_error + 'b http_request" where
  "viewsApi_list prefix namespace =
     (let namespaceStr = encodeNamespace namespace in
      case views_url prefix namespaceStr of
        Inl e \<Rightarrow> Inl e
      | Inr u \<Rightarrow> Inr \<lparr> http_method = GET, url = u, body = None \<rparr>)"

definition viewsApi_get :: "js_string \<Rightarrow> js_string list \<Rightarrow> js_string \<Rightarrow> js_error + 'b http_request" where
  "viewsApi_get prefix namespace viewName =
     (let namespaceStr = encodeNamespace namespace in
      case view_url prefix namespaceStr viewName of
        Inl e \<Rightarrow> Inl e
      | Inr u \<Rightarrow> Inr \<lparr> http_method = GET, url = u, body = None \<rparr>)"

definition viewsApi_delete :: "js_string \<Rightarrow> js_string list \<Rightarrow> js_string \<Rightarrow> js_error + 'b http_request" where
  "viewsApi_delete prefix namespace viewName =
     (let namespaceStr = encodeNamespace namespace in
      case view_url prefix namespaceStr viewName of
        Inl e \<Rightarrow> Inl e
      | Inr u \<Rightarrow> Inr \<lparr> http_method = DELETE, url = u, body = None \<rparr>)"

definition viewsApi_create :: "js_string \<Rightarrow> js_string list \<Rightarrow> 'b \<Rightarrow> js_error + 'b http_request" where
  "viewsApi_create prefix namespace request =
     (let namespaceStr = encodeNamespace namespace in
      case views_url prefix namespaceStr of
        Inl e \<Rightarrow> Inl e
      | Inr u \<Rightarrow> Inr \<lparr> http_method = POST, url = u, body = Some request \<rparr>)"

text \<open>The segments of a path: the pieces between slashes.\<close>
fun path_segments :: "js_string \<Rightarrow> js_string list" where
  "path_segments [] = [[]]"
| "path_segments (c # cs) =
     (if c = 0x2F then [] # path_segments cs
      else (case path_segments cs of seg # segs \<Rightarrow> (c # seg) # segs | [] \<Rightarrow> [[c]]))"

section \<open>Table details of the console (\<open>TableDetails\<close>, \<open>TableDetailsDrawer\<close>)\<close>

text \<open>
  The query function of \<open>tableQuery\<close> awaits \<open>tablesApi.get\<close> and, in the handler of its
  exception, \<open>tablesApi.getGeneric\<close>. The two calls are given by their outcome for the
  arguments (an exception or a result); the function returns its own outcome together with
  the calls it made, in order.
\<close>
datatype api_call =
  Get js_string "js_string list" js_string
| GetGeneric js_string "js_string list" js_string

datatype ('i, 'g) table_data = LoadTableResult 'i | LoadGenericTableResponse 'g

record ('e, 'i, 'g) tablesApi =
  tablesApi_get :: "js_string \<Rightarrow> js_string list \<Rightarrow> js_string \<Rightarrow> 'e + 'i"
  tablesApi_getGeneric :: "js_string \<Rightarrow> js_string list \<Rightarrow> js_string \<Rightarrow> 'e + 'g"

definition TableDetails_queryFn ::
  "('e, 'i, 'g) tablesApi \<Rightarrow> js_string \<Rightarrow> js_string list \<Rightarrow> js_string
     \<Rightarrow> ('e + ('i, 'g) table_data) \<times> api_call list" where
  "TableDetails_queryFn api catalogName namespaceArray tableName =
     (case tablesApi_get api catalogName namespaceArray tableName of
        Inr t \<Rightarrow> (Inr (LoadTableResult t), [Get catalogName namespaceArray tableName])
      | Inl icebergError \<Rightarrow>
          (case tablesApi_getGeneric api catalogName namespaceArray tableName of
             Inr g \<Rightarrow>
               (Inr (LoadGenericTableResponse g),
                [Get catalogName namespaceArray tableName,
                 GetGeneric catalogName namespaceArray tableName])
           | Inl _ \<Rightarrow>
               (Inl icebergError,
                [Get catalogName namespaceArray tableName,
                 GetGeneric catalogName namespaceArray tableName])))"

definition TableDetailsDrawer_queryFn ::
  "('e, 'i, 'g) tablesApi \<Rightarrow> js_string \<Rightarrow> js_string list \<Rightarrow> js_string
     \<Rightarrow> ('e + ('i, 'g) table_data) \<times> api_call list" where
  "TableDetailsDrawer_queryFn api catalogName namespace tableName =
     (case tablesApi_get api catalogName namespace tableName of
        Inr t \<Rightarrow> (Inr (LoadTableResult t), [Get catalogName namespace tableName])
      | Inl icebergError \<Rightarrow>
          (case tablesApi_getGeneric api catalogName namespace tableName of
             Inr g \<Rightarrow>
               (Inr (LoadGenericTableResponse g),
                [Get catalogName namespace tableName,
                 GetGeneric catalogName namespace tableName])
           | Inl _ \<Rightarrow>
               (Inl icebergError,
                [Get catalogName namespace tableName,
                 GetGeneric catalogName namespace tableName])))"

section \<open>Properties of the Topology Calculator\<close>

lemma geometric_sum_int: "(N - 1) * (\<Sum>l<d. N ^ l) = N ^ d - (1::int)"
  by (induction d) (simp_all add: algebra_simps)

lemma numberOfNodes_levels:
  assumes "1 \<le> N" "1 \<le> D"
  shows "numberOfNodes N D = (\<Sum>l<nat D. N ^ l)"
proof (cases "N > 1")
  case True
  have "(N ^ nat D - 1) div (N - 1) = ((N - 1) * (\<Sum>l<nat D. N ^ l)) div (N - 1)"
    by (simp only: geometric_sum_int)
  also have "\<dots> = (\<Sum>l<nat D. N ^ l)"
    using True by simp
  finally show ?thesis using True by (simp add: numberOfNodes_def)
next
  case False
  with assms have "N = 1" by simp
  then show ?thesis using assms by (simp add: numberOfNodes_def)
qed

text \<open>
  Claim C2. For every width \<open>N \<ge> 1\<close> and depth \<open>D \<ge> 1\<close> (and caps that are \<open>-1\<close> or
  non-negative) the calculator returns a topology whose \<open>totalNamespaces\<close> is
  \<open>(N^D - 1) / (N - 1)\<close> when \<open>N > 1\<close> (the division is exact, and the value is the number
  of nodes on the levels \<open>0..D-1\<close>), and \<open>D\<close> when \<open>N = 1\<close>. The three examples of the
  specification give 7, 11 and 1000.
\<close>
theorem totalNamespaces_closed_form:
  assumes "1 \<le> treeWidth p" and "1 \<le> treeDepth p"
    and "validCap (maxTables p)" and "validCap (maxViews p)"
  shows "\<exists>t. topologyCalculator p = Inr t
    \<and> (treeWidth p > 1 \<longrightarrow>
          totalNamespaces t = (treeWidth p ^ nat (treeDepth p) - 1) div (treeWidth p - 1)
        \<and> (treeWidth p - 1) * totalNamespaces t = treeWidth p ^ nat (treeDepth p) - 1)
    \<and> (treeWidth p = 1 \<longrightarrow> totalNamespaces t = treeDepth p)
    \<and> totalNamespaces t = (\<Sum>l<nat (treeDepth p). treeWidth p ^ l)"
proof -
  define t where "t = \<lparr> totalNamespaces = numberOfNodes (treeWidth p) (treeDepth p),
      totalTables = cappedCount (treeWidth p) (treeDepth p) (tablesPerLeaf p) (maxTables p),
      totalViews = cappedCount (treeWidth p) (treeDepth p) (viewsPerLeaf p) (maxViews p) \<rparr>"
  have r: "topologyCalculator p = Inr t"
    using assms by (simp add: topologyCalculator_def t_def)
  have t: "totalNamespaces t = numberOfNodes (treeWidth p) (treeDepth p)"
    by (simp add: t_def)
  have lv: "totalNamespaces t = (\<Sum>l<nat (treeDepth p). treeWidth p ^ l)"
    using t numberOfNodes_levels [OF assms(1,2)] by simp
  have ex: "(treeWidth p - 1) * totalNamespaces t = treeWidth p ^ nat (treeDepth p) - 1"
    unfolding lv by (rule geometric_sum_int)
  have cf: "treeWidth p > 1 \<Longrightarrow>
      totalNamespaces t = (treeWidth p ^ nat (treeDepth p) - 1) div (treeWidth p - 1)"
    using t by (simp add: numberOfNodes_def)
  have ch: "treeWidth p = 1 \<Longrightarrow> totalNamespaces t = treeDepth p"
    using t by (simp add: numberOfNodes_def)
  from r cf ch ex lv show ?thesis by blast
qed

lemma shape_simps:
  "treeWidth (shape N D T V mt mv) = N" "treeDepth (shape N D T V mt mv) = D"
  "tablesPerLeaf (shape N D T V mt mv) = T" "viewsPerLeaf (shape N D T V mt mv) = V"
  "maxTables (shape N D T V mt mv) = mt" "maxViews (shape N D T V mt mv) = mv"
  by (simp_all add: shape_def)

theorem totalNamespaces_closed_form_witness:
  "(\<exists>t. topologyCalculator (shape 2 3 5 3 (-1) (-1)) = Inr t \<and> totalNamespaces t = 7)
   \<and> (\<exists>t. topologyCalculator (shape 10 2 3 3 (-1) (-1)) = Inr t \<and> totalNamespaces t = 11)
   \<and> (\<exists>t. topologyCalculator (shape 1 1000 7 4 (-1) (-1)) = Inr t \<and> totalNamespaces t = 1000)"
proof -
  have a: "\<exists>t. topologyCalculator (shape 2 3 5 3 (-1) (-1)) = Inr t \<and> totalNamespaces t = 7"
    using totalNamespaces_closed_form [of "shape 2 3 5 3 (-1) (-1)"]
    by (auto simp: shape_simps validCap_def)
  have b: "\<exists>t. topologyCalculator (shape 10 2 3 3 (-1) (-1)) = Inr t \<and> totalNamespaces t = 11"
    using totalNamespaces_closed_form [of "shape 10 2 3 3 (-1) (-1)"]
    by (auto simp: shape_simps validCap_def)
  have c: "\<exists>t. topologyCalculator (shape 1 1000 7 4 (-1) (-1)) = Inr t \<and> totalNamespaces t = 1000"
    using totalNamespaces_closed_form [of "shape 1 1000 7 4 (-1) (-1)"]
    by (auto simp: shape_simps validCap_def)
  from a b c show ?thesis by blast
qed

text \<open>
  Claim C3. For every valid shape the calculator's \<open>totalTables\<close> is \<open>N^(D-1) * T\<close> when
  \<open>maxTables\<close> is the sentinel \<open>-1\<close> and \<open>min (N^(D-1) * T) maxTables\<close> otherwise, so it never
  exceeds \<open>N^(D-1) * T\<close>; the same holds for \<open>totalViews\<close> with \<open>V\<close> and \<open>maxViews\<close>.
\<close>
theorem totalTables_capped:
  assumes "1 \<le> treeWidth p" and "1 \<le> treeDepth p"
    and "validCap (maxTables p)" and "validCap (maxViews p)"
  shows "\<exists>t. topologyCalculator p = Inr t
    \<and> (maxTables p = -1 \<longrightarrow>
          totalTables t = treeWidth p ^ nat (treeDepth p - 1) * tablesPerLeaf p)
    \<and> (maxTables p \<noteq> -1 \<longrightarrow>
          totalTables t = min (treeWidth p ^ nat (treeDepth p - 1) * tablesPerLeaf p) (maxTables p))
    \<and> totalTables t \<le> treeWidth p ^ nat (treeDepth p - 1) * tablesPerLeaf p
    \<and> (maxViews p = -1 \<longrightarrow>
          totalViews t = treeWidth p ^ nat (treeDepth p - 1) * viewsPerLeaf p)
    \<and> (maxViews p \<noteq> -1 \<longrightarrow>
          totalViews t = min (treeWidth p ^ nat (treeDepth p - 1) * viewsPerLeaf p) (maxViews p))
    \<and> totalViews t \<le> treeWidth p ^ nat (treeDepth p - 1) * viewsPerLeaf p"
  using assms
  by (simp add: topologyCalculator_def cappedCount_def numberOfLeaves_def)

theorem totalTables_capped_witness:
  "(\<exists>t. topologyCalculator (shape 2 4 5 3 10 (-1)) = Inr t \<and> totalTables t = 10
        \<and> totalTables t \<noteq> 40 \<and> totalViews t = 24)
   \<and> (\<exists>t. topologyCalculator (shape 2 3 5 3 (-1) 7) = Inr t \<and> totalTables t = 20
        \<and> totalViews t = 7)"
proof -
  have a: "\<exists>t. topologyCalculator (shape 2 4 5 3 10 (-1)) = Inr t \<and> totalTables t = 10
        \<and> totalTables t \<noteq> 40 \<and> totalViews t = 24"
    using totalTables_capped [of "shape 2 4 5 3 10 (-1)"]
    by (auto simp: shape_simps validCap_def)
  have b: "\<exists>t. topologyCalculator (shape 2 3 5 3 (-1) 7) = Inr t \<and> totalTables t = 20
        \<and> totalViews t = 7"
    using totalTables_capped [of "shape 2 3 5 3 (-1) 7"]
    by (auto simp: shape_simps validCap_def)
  from a b show ?thesis by blast
qed

section \<open>Properties of the namer and mangler\<close>

lemma length_le_bytes32: "length (le_bytes32 w) = 4"
  by (simp add: le_bytes32_def)

lemma length_md5: "length (md5 m) = 16"
  by (simp add: md5_def length_le_bytes32 split: prod.splits)

lemma hex_digit_lower_hex: "n < 16 \<Longrightarrow> is_lower_hex (hex_digit n)"
  unfolding is_lower_hex_def hex_digit_def by (rule nth_mem) simp

lemma format_02x_hex: "list_all is_lower_hex (format_02x b)"
proof -
  have "unat b < 256" using unsigned_less [of b] by simp
  then have "unat b div 16 < 16" by simp
  then show ?thesis by (simp add: format_02x_def hex_digit_lower_hex)
qed

lemma length_format_02x: "length (format_02x b) = 2"
  by (simp add: format_02x_def)

lemma length_hex_string: "length (concat (map format_02x d)) = 2 * length d"
  by (induction d) (simp_all add: length_format_02x)

lemma hex_string_lower_hex: "list_all is_lower_hex (concat (map format_02x d))"
  by (induction d) (simp_all add: format_02x_hex)

lemma maybeMangle_state:
  "MD5 m = [] \<Longrightarrow> MD5 (snd (maybeMangle m p n)) = [] \<and> enabled (snd (maybeMangle m p n)) = enabled m"
  by (simp add: maybeMangle_def MessageDigest_digest_input_def MessageDigest_digest_def)

lemma mangler_after_state:
  "MD5 m = [] \<Longrightarrow> MD5 (mangler_after m calls) = [] \<and> enabled (mangler_after m calls) = enabled m"
proof (induction calls arbitrary: m)
  case Nil
  then show ?case by (simp add: mangler_after_def)
next
  case (Cons c calls)
  obtain p n where c: "c = (p, n)" by (cases c)
  have "mangler_after m (c # calls) = mangler_after (snd (maybeMangle m p n)) calls"
    by (simp add: mangler_after_def c)
  with Cons.IH [of "snd (maybeMangle m p n)"] maybeMangle_state [OF Cons.prems, of p n]
  show ?case by simp
qed

lemma maybeMangle_mangled:
  assumes "MD5 m = []" and "enabled m"
  shows "fst (maybeMangle m p n) = concat (map format_02x (md5 (getBytes (p @ Integer_toString n))))"
  using assms
  by (simp add: maybeMangle_def MessageDigest_digest_input_def MessageDigest_digest_def
      MessageDigest_update_def)

lemma maybeMangle_sequential:
  "fst (maybeMangle (mangler_after (new_Mangler True) calls) p n)
     = concat (map format_02x (md5 (getBytes (p @ Integer_toString n))))"
proof -
  have "MD5 (new_Mangler True) = []"
    by (simp add: new_Mangler_def MessageDigest_getInstance_def)
  from mangler_after_state [OF this, of calls]
  show ?thesis by (simp add: maybeMangle_mangled new_Mangler_def)
qed

lemma maybeMangle_plain:
  "fst (maybeMangle (mangler_after (new_Mangler False) calls) p n) = p @ Integer_toString n"
proof -
  have "MD5 (new_Mangler False) = []"
    by (simp add: new_Mangler_def MessageDigest_getInstance_def)
  from mangler_after_state [OF this, of calls]
  show ?thesis by (simp add: maybeMangle_def new_Mangler_def)
qed

lemma digit_char_digit: "d < 10 \<Longrightarrow> is_digit (digit_char d)"
  unfolding is_digit_def digit_char_def by (rule nth_mem) simp

lemma digit_char_value: "d < 10 \<Longrightarrow> of_char (digit_char d) - 48 = d"
proof -
  assume "d < 10"
  then have "d \<in> {0, 1, 2, 3, 4, 5, 6, 7, 8, 9}" by auto
  then show ?thesis by (auto simp: digit_char_def)
qed

lemma nat_toString_digits: "list_all is_digit (nat_toString n)"
proof (induction n rule: nat_toString.induct)
  case (1 n)
  show ?case
  proof (cases "n < 10")
    case True
    then show ?thesis by (simp add: nat_toString.simps [of n] digit_char_digit)
  next
    case False
    with 1 show ?thesis by (simp add: nat_toString.simps [of n] digit_char_digit)
  qed
qed

lemma decimal_value_snoc: "decimal_value (ds @ [c]) = 10 * decimal_value ds + (of_char c - 48)"
  by (simp add: decimal_value_def)

lemma decimal_value_nat_toString: "decimal_value (nat_toString n) = n"
proof (induction n rule: nat_toString.induct)
  case (1 n)
  show ?case
  proof (cases "n < 10")
    case True
    then show ?thesis
      by (simp add: nat_toString.simps [of n] decimal_value_def digit_char_value)
  next
    case False
    with 1 have "decimal_value (nat_toString (n div 10)) = n div 10" by simp
    with False show ?thesis
      by (simp add: nat_toString.simps [of n] decimal_value_snoc digit_char_value)
  qed
qed

text \<open>
  Claim C4. In mangled mode, for each of the three kinds and every ordinal, the name returned
  does not depend on the calls made before on the same mangler (one after the other): it is
  the name a fresh mangler returns, a function of the prefix and the ordinal only. The name
  has exactly 32 characters, each a lowercase hexadecimal digit.
\<close>
theorem mangled_name_deterministic_hex32:
  "fst (maybeMangleNs (mangler_after (new_Mangler True) calls) n)
      = fst (maybeMangleNs (new_Mangler True) n)
   \<and> fst (maybeMangleTable (mangler_after (new_Mangler True) calls) n)
      = fst (maybeMangleTable (new_Mangler True) n)
   \<and> fst (maybeMangleView (mangler_after (new_Mangler True) calls) n)
      = fst (maybeMangleView (new_Mangler True) n)
   \<and> length (fst (maybeMangleNs (new_Mangler True) n)) = 32
   \<and> length (fst (maybeMangleTable (new_Mangler True) n)) = 32
   \<and> length (fst (maybeMangleView (new_Mangler True) n)) = 32
   \<and> list_all is_lower_hex (fst (maybeMangleNs (new_Mangler True) n))
   \<and> list_all is_lower_hex (fst (maybeMangleTable (new_Mangler True) n))
   \<and> list_all is_lower_hex (fst (maybeMangleView (new_Mangler True) n))"
proof -
  have fresh: "\<And>p. fst (maybeMangle (new_Mangler True) p n)
      = concat (map format_02x (md5 (getBytes (p @ Integer_toString n))))"
    using maybeMangle_sequential [of "[]"] by (simp add: mangler_after_def)
  show ?thesis
    unfolding maybeMangleNs_def maybeMangleTable_def maybeMangleView_def
    by (simp add: maybeMangle_sequential fresh length_hex_string length_md5
        hex_string_lower_hex)
qed

text \<open>
  Claim C8. In unmangled mode the namespace, table and view names of ordinal \<open>n\<close> are
  \<open>NS_\<close>, \<open>T_\<close> and \<open>V_\<close> followed by the decimal digits of \<open>n\<close> (after a minus sign when
  \<open>n\<close> is negative), whatever calls were made before on the same mangler. The mangler has
  no method for catalogs: a catalog name is the caller's prefix followed by the ordinal
  whether mangling is enabled or not.
\<close>
theorem plain_name_prefix_decimal:
  "fst (maybeMangleNs (mangler_after (new_Mangler False) calls) n) = ''NS_'' @ Integer_toString n
   \<and> fst (maybeMangleTable (mangler_after (new_Mangler False) calls) n) = ''T_'' @ Integer_toString n
   \<and> fst (maybeMangleView (mangler_after (new_Mangler False) calls) n) = ''V_'' @ Integer_toString n
   \<and> (\<exists>ds. Integer_toString n = (if sint n < 0 then ''-'' else []) @ ds
          \<and> list_all is_digit ds \<and> int (decimal_value ds) = \<bar>sint n\<bar>)
   \<and> fst (catalog_name (mangler_after (new_Mangler e) calls) base n) = base @ Integer_toString n"
proof -
  have "\<exists>ds. Integer_toString n = (if sint n < 0 then ''-'' else []) @ ds
          \<and> list_all is_digit ds \<and> int (decimal_value ds) = \<bar>sint n\<bar>"
  proof (cases "sint n < 0")
    case True
    then have "Integer_toString n = ''-'' @ nat_toString (nat (- sint n))"
      by (simp add: Integer_toString_def)
    with True show ?thesis
      using nat_toString_digits [of "nat (- sint n)"]
        decimal_value_nat_toString [of "nat (- sint n)"] by auto
  next
    case False
    then have "Integer_toString n = nat_toString (nat (sint n))"
      by (simp add: Integer_toString_def)
    with False show ?thesis
      using nat_toString_digits [of "nat (sint n)"]
        decimal_value_nat_toString [of "nat (sint n)"] by auto
  qed
  then show ?thesis
    unfolding maybeMangleNs_def maybeMangleTable_def maybeMangleView_def
    by (simp add: maybeMangle_plain catalog_name_def)
qed

theorem plain_name_prefix_decimal_witness:
  "fst (maybeMangleNs (mangler_after (new_Mangler False) [(''T_'', 7)]) 12) = ''NS_12''
   \<and> fst (maybeMangleTable (mangler_after (new_Mangler False) [(''T_'', 7)]) 12) = ''T_12''
   \<and> fst (maybeMangleView (mangler_after (new_Mangler False) [(''T_'', 7)]) 12) = ''V_12''
   \<and> fst (catalog_name (mangler_after (new_Mangler True) [(''T_'', 7)]) ''C_'' 12) = ''C_12''"
proof -
  have "Integer_toString 12 = ''12''"
    by (simp add: Integer_toString_def nat_toString.simps digit_char_def)
  with plain_name_prefix_decimal [of "[(''T_'', 7)]" 12 True "''C_''"] show ?thesis by simp
qed

section \<open>Properties of the verification phases\<close>

lemma sint_of_nat_small:
  assumes "int n < 2 ^ 31"
  shows "sint (of_nat n :: 32 word) = int n"
proof -
  have "- (2 ^ 31) \<le> int n" by simp
  with assms have "signed_take_bit 31 (int n) = int n"
    by (simp add: signed_take_bit_int_eq_self)
  then show ?thesis by (simp add: signed_of_nat)
qed

lemma count_at_update:
  "i < length us \<Longrightarrow>
     count_at l (us[i := u]) + (if at (us ! i) = l then 1 else 0)
       = count_at l us + (if at u = l then 1 else 0)"
proof (induction us arbitrary: i)
  case Nil
  then show ?case by simp
next
  case (Cons a us)
  show ?case
  proof (cases i)
    case 0
    then show ?thesis by (simp add: count_at_def)
  next
    case (Suc j)
    with Cons.prems have "j < length us" by simp
    from Cons.IH [OF this] Suc show ?thesis by (simp add: count_at_def)
  qed
qed

lemma count_at_total:
  "count_at AtCondition us + count_at InBody us + count_at Exited us = length us"
proof (induction us)
  case Nil
  then show ?case by (simp add: count_at_def)
next
  case (Cons a us)
  then show ?case by (cases "at a") (simp_all add: count_at_def)
qed

lemma count_at_pos: "i < length us \<Longrightarrow> at (us ! i) = l \<Longrightarrow> 0 < count_at l us"
  unfolding count_at_def by (auto simp: filter_empty_conv intro!: nth_mem)

lemma count_at_move:
  assumes "i < length us" and "at (us ! i) = l0"
  shows "count_at l (us[i := (us ! i)\<lparr>at := l1\<rparr>]) + (if l0 = l then 1 else 0)
           = count_at l us + (if l1 = l then 1 else 0)"
  using count_at_update [OF assms(1), of l "(us ! i)\<lparr>at := l1\<rparr>"] assms(2) by simp

lemma count_at_moved:
  assumes "i < length us" and "at (us ! i) = l0" and "l0 \<noteq> l1"
  shows "count_at l1 (us[i := (us ! i)\<lparr>at := l1\<rparr>]) = count_at l1 us + 1"
    and "count_at l0 (us[i := (us ! i)\<lparr>at := l1\<rparr>]) + 1 = count_at l0 us"
    and "l \<noteq> l0 \<Longrightarrow> l \<noteq> l1 \<Longrightarrow> count_at l (us[i := (us ! i)\<lparr>at := l1\<rparr>]) = count_at l us"
  using count_at_move [OF assms(1,2), of l1 l1] count_at_move [OF assms(1,2), of l0 l1]
    count_at_move [OF assms(1,2), of l l1] assms(3)
  by auto

lemma user_step_condition:
  assumes "i < length (users s)" and "at (users s ! i) = AtCondition"
  shows "user_step target s i =
     Inr (s\<lparr>counter := counter s + 1,
       users := (users s)[i := (users s ! i)\<lparr>at :=
          (if sint (counter s) < sint target \<and> accessToken (users s ! i) then InBody else Exited)\<rparr>]\<rparr>)"
  using assms by (simp add: user_step_def asLongAs_condition_def getAndIncrement_def Let_def)

lemma user_step_fed:
  assumes "i < length (users s)" and "at (users s ! i) = InBody"
    and "feeder s < nat (sint target)"
  shows "user_step target s i =
     Inr (s\<lparr>feeder := feeder s + 1, visited := visited s @ [feeder s],
       users := (users s)[i := (users s ! i)\<lparr>at := AtCondition\<rparr>]\<rparr>)"
  using assms by (simp add: user_step_def feed_def Let_def)

lemma user_step_empty:
  assumes "i < length (users s)" and "at (users s ! i) = InBody"
    and "\<not> feeder s < nat (sint target)"
  shows "user_step target s i = Inl FeederEmpty"
  using assms by (simp add: user_step_def feed_def Let_def)

lemma user_step_idle:
  assumes "\<not> i < length (users s) \<or> at (users s ! i) = Exited"
  shows "user_step target s i = Inr s"
  using assms by (auto simp: user_step_def Let_def)

lemma user_step_cases [case_names idle enter leave fed empty]:
  obtains
    (idle) "user_step target s i = Inr s" "\<not> i < length (users s) \<or> at (users s ! i) = Exited"
  | (enter) "i < length (users s)" "at (users s ! i) = AtCondition"
      "sint (counter s) < sint target" "accessToken (users s ! i)"
      "user_step target s i =
         Inr (s\<lparr>counter := counter s + 1, users := (users s)[i := (users s ! i)\<lparr>at := InBody\<rparr>]\<rparr>)"
  | (leave) "i < length (users s)" "at (users s ! i) = AtCondition"
      "\<not> (sint (counter s) < sint target \<and> accessToken (users s ! i))"
      "user_step target s i =
         Inr (s\<lparr>counter := counter s + 1, users := (users s)[i := (users s ! i)\<lparr>at := Exited\<rparr>]\<rparr>)"
  | (fed) "i < length (users s)" "at (users s ! i) = InBody" "feeder s < nat (sint target)"
      "user_step target s i =
         Inr (s\<lparr>feeder := feeder s + 1, visited := visited s @ [feeder s],
           users := (users s)[i := (users s ! i)\<lparr>at := AtCondition\<rparr>]\<rparr>)"
  | (empty) "i < length (users s)" "at (users s ! i) = InBody"
      "\<not> feeder s < nat (sint target)" "user_step target s i = Inl FeederEmpty"
proof (cases "i < length (users s)")
  case False
  then show ?thesis using idle user_step_idle [of i s target] by simp
next
  case True
  show ?thesis
  proof (cases "at (users s ! i)")
    case AtCondition
    note st = user_step_condition [OF True AtCondition, of target]
    show ?thesis
    proof (cases "sint (counter s) < sint target \<and> accessToken (users s ! i)")
      case c: True
      have "user_step target s i =
         Inr (s\<lparr>counter := counter s + 1, users := (users s)[i := (users s ! i)\<lparr>at := InBody\<rparr>]\<rparr>)"
        unfolding st using c by simp
      with c True AtCondition show ?thesis using enter by blast
    next
      case c: False
      have "user_step target s i =
         Inr (s\<lparr>counter := counter s + 1, users := (users s)[i := (users s ! i)\<lparr>at := Exited\<rparr>]\<rparr>)"
        unfolding st using c by auto
      with c True AtCondition show ?thesis using leave by blast
    qed
  next
    case InBody
    show ?thesis
    proof (cases "feeder s < nat (sint target)")
      case f: True
      then show ?thesis using fed True InBody user_step_fed [OF True InBody f] by blast
    next
      case f: False
      then show ?thesis using empty True InBody user_step_empty [OF True InBody f] by blast
    qed
  next
    case Exited
    then show ?thesis using idle user_step_idle [of i s target] by simp
  qed
qed

text \<open>What a step does to the quantities the invariants speak of.\<close>

lemma enter_effect:
  assumes "i < length (users s)" and "at (users s ! i) = AtCondition"
    and "s' = s\<lparr>counter := counter s + 1, users := (users s)[i := (users s ! i)\<lparr>at := InBody\<rparr>]\<rparr>"
  shows "counter s' = counter s + 1" "feeder s' = feeder s" "visited s' = visited s"
    "count_at InBody (users s') = count_at InBody (users s) + 1"
    "count_at Exited (users s') = count_at Exited (users s)"
    "claims s' = claims s + 1"
proof -
  note mv = count_at_moved [OF assms(1,2), of InBody]
  show "counter s' = counter s + 1" "feeder s' = feeder s" "visited s' = visited s"
    by (simp_all add: assms(3))
  show a: "count_at InBody (users s') = count_at InBody (users s) + 1"
    using mv(1) by (simp add: assms(3))
  show b: "count_at Exited (users s') = count_at Exited (users s)"
    using mv(3) [of Exited] by (simp add: assms(3))
  show "claims s' = claims s + 1"
    unfolding claims_def a b by (simp add: assms(3))
qed

lemma leave_effect:
  assumes "i < length (users s)" and "at (users s ! i) = AtCondition"
    and "s' = s\<lparr>counter := counter s + 1, users := (users s)[i := (users s ! i)\<lparr>at := Exited\<rparr>]\<rparr>"
  shows "counter s' = counter s + 1" "feeder s' = feeder s" "visited s' = visited s"
    "count_at InBody (users s') = count_at InBody (users s)"
    "count_at Exited (users s') = count_at Exited (users s) + 1"
    "claims s' = claims s + 1"
proof -
  note mv = count_at_moved [OF assms(1,2), of Exited]
  show "counter s' = counter s + 1" "feeder s' = feeder s" "visited s' = visited s"
    by (simp_all add: assms(3))
  show a: "count_at InBody (users s') = count_at InBody (users s)"
    using mv(3) [of InBody] by (simp add: assms(3))
  show b: "count_at Exited (users s') = count_at Exited (users s) + 1"
    using mv(1) by (simp add: assms(3))
  show "claims s' = claims s + 1"
    unfolding claims_def a b by (simp add: assms(3))
qed

lemma fed_effect:
  assumes "i < length (users s)" and "at (users s ! i) = InBody"
    and "s' = s\<lparr>feeder := feeder s + 1, visited := visited s @ [feeder s],
           users := (users s)[i := (users s ! i)\<lparr>at := AtCondition\<rparr>]\<rparr>"
  shows "counter s' = counter s" "feeder s' = feeder s + 1" "visited s' = visited s @ [feeder s]"
    "count_at InBody (users s') + 1 = count_at InBody (users s)"
    "count_at Exited (users s') = count_at Exited (users s)"
    "claims s' = claims s"
proof -
  note mv = count_at_moved [OF assms(1,2), of AtCondition]
  show "counter s' = counter s" "feeder s' = feeder s + 1" "visited s' = visited s @ [feeder s]"
    by (simp_all add: assms(3))
  show a: "count_at InBody (users s') + 1 = count_at InBody (users s)"
    using mv(2) by (simp add: assms(3))
  show b: "count_at Exited (users s') = count_at Exited (users s)"
    using mv(3) [of Exited] by (simp add: assms(3))
  show "claims s' = claims s"
    unfolding claims_def b using a by (simp add: assms(3))
qed

lemma run_phase_append:
  "run_phase target s (xs @ ys)
     = (case run_phase target s xs of Inl e \<Rightarrow> Inl e | Inr s' \<Rightarrow> run_phase target s' ys)"
  by (induction xs arbitrary: s) (simp_all split: sum.splits)

lemma run_phase_snoc:
  assumes "run_phase target s xs = Inr s'"
  shows "run_phase target s (xs @ [i]) = user_step target s' i"
  using assms by (simp add: run_phase_append split: sum.splits)

text \<open>A property kept by every step that does not fail holds after every run that does
  not fail.\<close>
lemma run_phase_invariant:
  assumes "run_phase target s sched = Inr s'" and "P s"
    and "\<And>s i s'. P s \<Longrightarrow> user_step target s i = Inr s' \<Longrightarrow> P s'"
  shows "P s'"
  using assms(1,2)
proof (induction sched arbitrary: s)
  case Nil
  then show ?case by simp
next
  case (Cons i sched)
  from Cons.prems(1) obtain s1 where s1: "user_step target s i = Inr s1"
    "run_phase target s1 sched = Inr s'"
    by (auto split: sum.splits)
  from assms(3) [OF Cons.prems(2) s1(1)] have "P s1" .
  from Cons.IH [OF s1(2) this] show ?case .
qed

lemma phase_inv_start: "phase_inv target (phase_start tokens)"
  by (simp add: phase_inv_def phase_start_def claims_def count_at_def filter_map comp_def)

lemma phase_inv_step:
  assumes "phase_inv target s" and "user_step target s i = Inr s'"
  shows "phase_inv target s'"
proof -
  from assms(1) have v: "visited s = [0..<feeder s]" and f: "feeder s \<le> nat (sint target)"
    and c: "counter s = of_nat (claims s)"
    by (simp_all add: phase_inv_def)
  show ?thesis
  proof (cases target s i rule: user_step_cases)
    case idle
    then show ?thesis using assms by simp
  next
    case enter
    with assms(2) have s': "s' = s\<lparr>counter := counter s + 1,
        users := (users s)[i := (users s ! i)\<lparr>at := InBody\<rparr>]\<rparr>" by simp
    note e = enter_effect [OF enter(1,2) s']
    show ?thesis unfolding phase_inv_def e using v f c by simp
  next
    case leave
    with assms(2) have s': "s' = s\<lparr>counter := counter s + 1,
        users := (users s)[i := (users s ! i)\<lparr>at := Exited\<rparr>]\<rparr>" by simp
    note e = leave_effect [OF leave(1,2) s']
    show ?thesis unfolding phase_inv_def e using v f c by simp
  next
    case fed
    with assms(2) have s': "s' = s\<lparr>feeder := feeder s + 1, visited := visited s @ [feeder s],
           users := (users s)[i := (users s ! i)\<lparr>at := AtCondition\<rparr>]\<rparr>" by simp
    note e = fed_effect [OF fed(1,2) s']
    have "visited s @ [feeder s] = [0..<feeder s + 1]" using v by simp
    moreover have "feeder s + 1 \<le> nat (sint target)" using fed(3) by simp
    ultimately show ?thesis unfolding phase_inv_def e using c by simp
  next
    case empty
    with assms(2) show ?thesis by simp
  qed
qed


lemma tokens_update:
  assumes "i < length us"
  shows "map accessToken (us[i := (us ! i)\<lparr>at := l\<rparr>]) = map accessToken us"
proof -
  have "map accessToken (us[i := (us ! i)\<lparr>at := l\<rparr>]) = (map accessToken us)[i := accessToken (us ! i)]"
    by (simp add: map_update)
  also have "\<dots> = (map accessToken us)[i := map accessToken us ! i]"
    using assms by simp
  also have "\<dots> = map accessToken us" by (rule list_update_id)
  finally show ?thesis .
qed

lemma tokens_step:
  assumes "user_step target s i = Inr s'"
  shows "map accessToken (users s') = map accessToken (users s)"
proof (cases target s i rule: user_step_cases)
  case idle
  with assms show ?thesis by simp
next
  case enter
  with assms show ?thesis by (auto simp: tokens_update)
next
  case leave
  with assms show ?thesis by (auto simp: tokens_update)
next
  case fed
  with assms show ?thesis by (auto simp: tokens_update)
next
  case empty
  with assms show ?thesis by simp
qed

lemma tokens_start: "map accessToken (users (phase_start tokens)) = tokens"
  by (simp add: phase_start_def comp_def)

lemma tokens_run:
  assumes "run_phase target (phase_start tokens) sched = Inr s"
  shows "map accessToken (users s) = tokens"
  by (rule run_phase_invariant [OF assms, of "\<lambda>s. map accessToken (users s) = tokens"])
    (simp_all add: tokens_start tokens_step)

lemma length_users_step:
  assumes "user_step target s i = Inr s'"
  shows "length (users s') = length (users s)"
  using tokens_step [OF assms] by (metis length_map)

lemma length_users_run:
  assumes "run_phase target (phase_start tokens) sched = Inr s"
  shows "length (users s) = length tokens"
  using tokens_run [OF assms] by (metis length_map)





lemma count_at_none:
  assumes "list_all (\<lambda>u. at u = Exited) us" and "l \<noteq> Exited"
  shows "count_at l us = 0"
  using assms by (induction us) (auto simp: count_at_def)



lemma claims_bound:
  assumes "phase_inv target s"
  shows "claims s + count_at AtCondition (users s) \<le> nat (sint target) + length (users s)"
proof -
  from assms have "visited s = [0..<feeder s]" and f: "feeder s \<le> nat (sint target)"
    by (simp_all add: phase_inv_def)
  then have "length (visited s) \<le> nat (sint target)" by simp
  with count_at_total [of "users s"] show ?thesis by (simp add: claims_def)
qed

text \<open>At a loop condition the counter reads the number of claims made, as long as the
  entities and the users together do not exceed \<open>2^31\<close>.\<close>
lemma counter_reads_claims_at_condition:
  assumes inv: "phase_inv target s"
    and nw: "int (nat (sint target)) + int (length (users s)) \<le> 2 ^ 31"
    and i: "i < length (users s)" "at (users s ! i) = AtCondition"
  shows "sint (counter s) = int (claims s)"
proof -
  from count_at_pos [OF i] have "0 < count_at AtCondition (users s)" .
  with claims_bound [OF inv]
  have "int (claims s) < int (nat (sint target)) + int (length (users s))" by linarith
  with nw have "int (claims s) < 2 ^ 31" by linarith
  then show ?thesis using inv by (simp add: phase_inv_def sint_of_nat_small)
qed

lemma within_target_start: "within_target target (phase_start tokens)"
  by (simp add: within_target_def phase_start_def count_at_def filter_map comp_def)

lemma within_target_step:
  assumes inv: "phase_inv target s" and wt: "within_target target s"
    and nw: "int (nat (sint target)) + int (length (users s)) \<le> 2 ^ 31"
    and st: "user_step target s i = Inr s'"
  shows "within_target target s'"
proof (cases target s i rule: user_step_cases)
  case idle
  with st wt show ?thesis by simp
next
  case enter
  with st have s': "s' = s\<lparr>counter := counter s + 1,
      users := (users s)[i := (users s ! i)\<lparr>at := InBody\<rparr>]\<rparr>" by simp
  note e = enter_effect [OF enter(1,2) s']
  from enter(3) counter_reads_claims_at_condition [OF inv nw enter(1,2)]
  have "int (claims s) < sint target" by simp
  then have "claims s < nat (sint target)" by linarith
  then have "length (visited s) + count_at InBody (users s) < nat (sint target)"
    by (simp add: claims_def)
  then show ?thesis unfolding within_target_def e by simp
next
  case leave
  with st have s': "s' = s\<lparr>counter := counter s + 1,
      users := (users s)[i := (users s ! i)\<lparr>at := Exited\<rparr>]\<rparr>" by simp
  note e = leave_effect [OF leave(1,2) s']
  show ?thesis using wt unfolding within_target_def e by simp
next
  case fed
  with st have s': "s' = s\<lparr>feeder := feeder s + 1, visited := visited s @ [feeder s],
         users := (users s)[i := (users s ! i)\<lparr>at := AtCondition\<rparr>]\<rparr>" by simp
  note e = fed_effect [OF fed(1,2) s']
  show ?thesis using wt e(4) unfolding within_target_def e(1-3,5,6) by simp
next
  case empty
  with st show ?thesis by simp
qed

text \<open>A user in the body always finds a record while no more users have entered the body
  than there are ordinals: no step fails.\<close>
lemma user_step_succeeds:
  assumes inv: "phase_inv target s" and wt: "within_target target s"
  shows "\<exists>s'. user_step target s i = Inr s'"
proof (cases target s i rule: user_step_cases)
  case empty
  from inv have "visited s = [0..<feeder s]" by (simp add: phase_inv_def)
  then have "length (visited s) = feeder s" by simp
  moreover have "0 < count_at InBody (users s)" by (rule count_at_pos [OF empty(1,2)])
  ultimately have "feeder s < nat (sint target)" using wt by (simp add: within_target_def)
  with empty(3) show ?thesis by simp
qed simp_all

lemma no_wrap_inv_start: "no_wrap_inv target tokens (phase_start tokens)"
  by (simp add: no_wrap_inv_def phase_inv_start within_target_start tokens_start)

lemma no_wrap_inv_step:
  assumes nw: "int (nat (sint target)) + int (length tokens) \<le> 2 ^ 31"
    and p: "no_wrap_inv target tokens s" and st: "user_step target s i = Inr s'"
  shows "no_wrap_inv target tokens s'"
proof -
  from p have inv: "phase_inv target s" and wt: "within_target target s"
    and tk: "map accessToken (users s) = tokens" by (simp_all add: no_wrap_inv_def)
  from tk have "length (users s) = length tokens" by (metis length_map)
  with nw have nw': "int (nat (sint target)) + int (length (users s)) \<le> 2 ^ 31" by simp
  show ?thesis unfolding no_wrap_inv_def
    using phase_inv_step [OF inv st] within_target_step [OF inv wt nw' st] tokens_step [OF st] tk
    by simp
qed

text \<open>While the entities and the users together do not exceed \<open>2^31\<close>, no run fails.\<close>
lemma run_phase_succeeds:
  assumes nw: "int (nat (sint target)) + int (length tokens) \<le> 2 ^ 31"
    and p: "no_wrap_inv target tokens s"
  shows "\<exists>s'. run_phase target s sched = Inr s' \<and> no_wrap_inv target tokens s'"
  using p
proof (induction sched arbitrary: s)
  case Nil
  then show ?case by simp
next
  case (Cons i sched)
  from Cons.prems have "phase_inv target s" "within_target target s"
    by (simp_all add: no_wrap_inv_def)
  from user_step_succeeds [OF this] obtain s1 where s1: "user_step target s i = Inr s1" by blast
  from no_wrap_inv_step [OF nw Cons.prems s1] have "no_wrap_inv target tokens s1" .
  from Cons.IH [OF this] s1 show ?case by simp
qed






lemma live_schedule_runs:
  "live_schedule target s sched \<Longrightarrow> \<exists>s'. run_phase target s sched = Inr s'"
  by (induction sched arbitrary: s) (auto split: sum.splits)



text \<open>The first user running alone: after \<open>n\<close> rounds of claiming and visiting, for \<open>n\<close> up
  to the target, the counter and the feeder are at \<open>n\<close> and every user is at the loop
  condition again.\<close>
lemma solo_rounds:
  assumes "n \<le> nat (sint target)"
  shows "run_phase target (phase_start (True # tokens)) (replicate (2 * n) 0)
           = Inr ((phase_start (True # tokens))
                    \<lparr>counter := of_nat n, feeder := n, visited := [0..<n]\<rparr>)"
  using assms
proof (induction n)
  case 0
  then show ?case by (simp add: phase_start_def)
next
  case (Suc n)
  let ?s = "(phase_start (True # tokens))\<lparr>counter := of_nat n, feeder := n, visited := [0..<n]\<rparr>"
  from Suc.prems have lt: "n < nat (sint target)" by simp
  then have lt': "int n < sint target" by linarith
  have "sint target < 2 ^ 31" using sint_lt [of target] by simp
  with lt' have "int n < 2 ^ 31" by linarith
  then have rd: "sint (of_nat n :: 32 word) = int n" by (rule sint_of_nat_small)
  have r: "run_phase target (phase_start (True # tokens)) (replicate (2 * n) 0) = Inr ?s"
    using Suc.IH lt by simp
  have s1: "user_step target ?s 0
      = Inr (?s\<lparr>counter := of_nat n + 1,
               users := (users ?s)[0 := (users ?s ! 0)\<lparr>at := InBody\<rparr>]\<rparr>)"
    using rd lt' by (simp add: user_step_condition phase_start_def)
  let ?t = "?s\<lparr>counter := of_nat n + 1, users := (users ?s)[0 := (users ?s ! 0)\<lparr>at := InBody\<rparr>]\<rparr>"
  have s2: "user_step target ?t 0
      = Inr ((phase_start (True # tokens))
               \<lparr>counter := of_nat (Suc n), feeder := Suc n, visited := [0..<Suc n]\<rparr>)"
    using lt by (simp add: user_step_def feed_def phase_start_def)
  have "replicate (2 * Suc n) (0 :: nat) = replicate (2 * n + 2) 0" by simp
  also have "\<dots> = replicate (2 * n) 0 @ replicate 2 0" by (rule replicate_add)
  also have "replicate 2 (0 :: nat) = [0, 0]" by (simp add: numeral_2_eq_2)
  finally have "replicate (2 * Suc n) (0 :: nat) = replicate (2 * n) 0 @ [0, 0]" .
  then show ?case using r s1 s2 by (simp add: run_phase_append)
qed



lemma target_max: "nat (sint (2147483647 :: int32)) = 2147483647"
  by simp


lemma counter_reads_claims:
  assumes inv: "phase_inv target s"
    and nw: "int (nat (sint target)) + int (length (users s)) < 2 ^ 31"
  shows "sint (counter s) = int (claims s)"
proof -
  from claims_bound [OF inv]
  have "int (claims s) \<le> int (nat (sint target)) + int (length (users s))" by linarith
  with nw have "int (claims s) < 2 ^ 31" by linarith
  then show ?thesis using inv by (simp add: phase_inv_def sint_of_nat_small)
qed

lemma claims_step:
  assumes "user_step target s i = Inr s'"
  shows "claims s' = claims s \<or> claims s' = claims s + 1"
proof (cases target s i rule: user_step_cases)
  case idle
  with assms show ?thesis by simp
next
  case enter
  with assms have s': "s' = s\<lparr>counter := counter s + 1,
      users := (users s)[i := (users s ! i)\<lparr>at := InBody\<rparr>]\<rparr>" by simp
  show ?thesis using enter_effect(6) [OF enter(1,2) s'] by simp
next
  case leave
  with assms have s': "s' = s\<lparr>counter := counter s + 1,
      users := (users s)[i := (users s ! i)\<lparr>at := Exited\<rparr>]\<rparr>" by simp
  show ?thesis using leave_effect(6) [OF leave(1,2) s'] by simp
next
  case fed
  with assms have s': "s' = s\<lparr>feeder := feeder s + 1, visited := visited s @ [feeder s],
         users := (users s)[i := (users s ! i)\<lparr>at := AtCondition\<rparr>]\<rparr>" by simp
  show ?thesis using fed_effect(6) [OF fed(1,2) s'] by simp
next
  case empty
  with assms show ?thesis by simp
qed

lemma counter_step:
  assumes "user_step target s i = Inr s'"
  shows "(counter s' = counter s + 1) = (i < length (users s) \<and> at (users s ! i) = AtCondition)"
    and "counter s' = counter s \<or> counter s' = counter s + 1"
proof -
  have "(counter s' = counter s + 1) = (i < length (users s) \<and> at (users s ! i) = AtCondition)
    \<and> (counter s' = counter s \<or> counter s' = counter s + 1)"
  proof (cases target s i rule: user_step_cases)
    case idle
    with assms show ?thesis by auto
  next
    case enter
    with assms show ?thesis by auto
  next
    case leave
    with assms show ?thesis by auto
  next
    case fed
    with assms show ?thesis by auto
  next
    case empty
    with assms show ?thesis by simp
  qed
  then show "(counter s' = counter s + 1) = (i < length (users s) \<and> at (users s ! i) = AtCondition)"
    and "counter s' = counter s \<or> counter s' = counter s + 1"
    by blast+
qed

text \<open>
  Claim C6. The counter of a phase changes only by \<open>getAndIncrement\<close>: a step leaves it
  unchanged or adds one, and it adds one exactly when a user evaluates the loop condition,
  that is before the user processes anything. While the counter cannot wrap around
  (\<open>k + w < 2^31\<close> for \<open>k\<close> entities and \<open>w\<close> users) no step fails, the value of the counter
  never decreases, and it equals the number of ordinals visited plus the users inside the
  body plus the users that have left the loop; so when every user has left the loop it is
  the number of ordinals visited plus \<open>w\<close>.
\<close>
theorem progress_counter_counts_claims:
  assumes "int (nat (sint target)) + int (length tokens) < 2 ^ 31"
  shows "\<exists>s. run_phase target (phase_start tokens) sched = Inr s
    \<and> sint (counter s)
        = int (length (visited s) + count_at InBody (users s) + count_at Exited (users s))
    \<and> (phase_finished s \<longrightarrow>
          sint (counter s) = int (length (visited s)) + int (length tokens))
    \<and> (\<exists>s'. user_step target s i = Inr s'
          \<and> ((counter s' = counter s + 1)
               = (i < length tokens \<and> at (users s ! i) = AtCondition))
          \<and> (counter s' = counter s \<or> counter s' = counter s + 1)
          \<and> sint (counter s) \<le> sint (counter s'))"
proof -
  let ?start = "phase_start tokens"
  from assms have nw: "int (nat (sint target)) + int (length tokens) \<le> 2 ^ 31" by simp
  from run_phase_succeeds [OF nw no_wrap_inv_start, of sched]
  obtain s where run: "run_phase target ?start sched = Inr s"
    and nwi: "no_wrap_inv target tokens s" by blast
  from nwi have inv: "phase_inv target s" and wt: "within_target target s"
    by (simp_all add: no_wrap_inv_def)
  from user_step_succeeds [OF inv wt] obtain s' where st: "user_step target s i = Inr s'"
    by blast
  have inv': "phase_inv target s'" by (rule phase_inv_step [OF inv st])
  have len: "length (users s) = length tokens" by (rule length_users_run [OF run])
  have len': "length (users s') = length tokens" using len length_users_step [OF st] by simp
  have rd: "sint (counter s) = int (claims s)"
    by (rule counter_reads_claims [OF inv]) (simp only: len assms)
  have rd': "sint (counter s') = int (claims s')"
    by (rule counter_reads_claims [OF inv']) (simp only: len' assms)
  have a: "sint (counter s)
      = int (length (visited s) + count_at InBody (users s) + count_at Exited (users s))"
    using rd by (simp add: claims_def)
  have b: "sint (counter s) = int (length (visited s)) + int (length tokens)"
    if fin: "phase_finished s"
  proof -
    have z: "count_at AtCondition (users s) = 0" "count_at InBody (users s) = 0"
      using fin by (simp_all add: phase_finished_def count_at_none)
    with count_at_total [of "users s"] len have "count_at Exited (users s) = length tokens"
      by simp
    with a z show ?thesis by simp
  qed
  have c: "(counter s' = counter s + 1) = (i < length tokens \<and> at (users s ! i) = AtCondition)"
    using counter_step(1) [OF st] len by simp
  have d: "counter s' = counter s \<or> counter s' = counter s + 1"
    by (rule counter_step(2) [OF st])
  have e: "sint (counter s) \<le> sint (counter s')"
    using claims_step [OF st] rd rd' by auto
  from run a b st c d e show ?thesis by blast
qed

theorem progress_counter_counts_claims_witness:
  "int (nat (sint (3 :: int32))) + int (length [True, True]) < 2 ^ 31
   \<and> run_phase 3 (phase_start [True, True]) [0, 1, 0, 1, 0, 1, 0, 0]
       = Inr \<lparr> counter = 5, feeder = 3, visited = [0, 1, 2],
               users = [\<lparr> accessToken = True, at = Exited \<rparr>,
                        \<lparr> accessToken = True, at = Exited \<rparr>] \<rparr>
   \<and> sint (5 :: int32) = int (length [0 :: nat, 1, 2]) + int (length [True, True])"
proof -
  have h: "int (nat (sint (3 :: int32))) + int (length [True, True]) < 2 ^ 31" by simp
  have r: "run_phase 3 (phase_start [True, True]) [0, 1, 0, 1, 0, 1, 0, 0]
       = Inr \<lparr> counter = 5, feeder = 3, visited = [0, 1, 2],
               users = [\<lparr> accessToken = True, at = Exited \<rparr>,
                        \<lparr> accessToken = True, at = Exited \<rparr>] \<rparr>"
    by code_simp
  from progress_counter_counts_claims [OF h, of "[0, 1, 0, 1, 0, 1, 0, 0]" 0]
  obtain s where s: "run_phase 3 (phase_start [True, True]) [0, 1, 0, 1, 0, 1, 0, 0] = Inr s"
    and f: "phase_finished s \<longrightarrow>
          sint (counter s) = int (length (visited s)) + int (length [True, True])"
    by blast
  from s r have e: "s = \<lparr> counter = 5, feeder = 3, visited = [0, 1, 2],
               users = [\<lparr> accessToken = True, at = Exited \<rparr>,
                        \<lparr> accessToken = True, at = Exited \<rparr>] \<rparr>" by simp
  then have "phase_finished s" by (simp add: phase_finished_def)
  with f e have "sint (5 :: int32) = int (length [0 :: nat, 1, 2]) + int (length [True, True])"
    by simp
  with h r show ?thesis by blast
qed

text \<open>
  As stated, claim C6 fails in two ways. The increment is not made after a descriptor has
  been processed, nor once per processed descriptor: in a phase over one entity with one
  user, after the first step the counter is 1 and nothing has been visited, and when the user
  has left the loop the counter is 2 and one ordinal has been visited. And the value is not
  non-decreasing without a bound on \<open>k + w\<close>: with \<open>2^31 - 1\<close> entities and one user, the
  user's last claim takes the counter from \<open>2^31 - 1\<close> to \<open>-2^31\<close>.
\<close>
theorem counter_incremented_at_claim:
  "run_phase 1 (phase_start [True]) [0]
     = Inr \<lparr> counter = 1, feeder = 0, visited = [],
             users = [\<lparr> accessToken = True, at = InBody \<rparr>] \<rparr>
   \<and> run_phase 1 (phase_start [True]) [0, 0, 0]
     = Inr \<lparr> counter = 2, feeder = 1, visited = [0],
             users = [\<lparr> accessToken = True, at = Exited \<rparr>] \<rparr>
   \<and> run_phase 2147483647 (phase_start [True]) (replicate (2 * 2147483647) 0)
     = Inr \<lparr> counter = 0x7FFFFFFF, feeder = 2147483647, visited = [0..<2147483647],
             users = [\<lparr> accessToken = True, at = AtCondition \<rparr>] \<rparr>
   \<and> run_phase 2147483647 (phase_start [True]) (replicate (2 * 2147483647) 0 @ [0])
     = Inr \<lparr> counter = 0x80000000, feeder = 2147483647, visited = [0..<2147483647],
             users = [\<lparr> accessToken = True, at = Exited \<rparr>] \<rparr>
   \<and> sint (0x7FFFFFFF :: int32) = 2147483647
   \<and> sint (0x80000000 :: int32) = - 2147483648"
proof -
  have a: "run_phase 1 (phase_start [True]) [0]
     = Inr \<lparr> counter = 1, feeder = 0, visited = [],
             users = [\<lparr> accessToken = True, at = InBody \<rparr>] \<rparr>"
    by (simp add: phase_start_def user_step_def asLongAs_condition_def getAndIncrement_def)
  have b: "run_phase 1 (phase_start [True]) [0, 0, 0]
     = Inr \<lparr> counter = 2, feeder = 1, visited = [0],
             users = [\<lparr> accessToken = True, at = Exited \<rparr>] \<rparr>"
    by (simp add: phase_start_def user_step_def asLongAs_condition_def getAndIncrement_def
        feed_def)
  have solo: "run_phase 2147483647 (phase_start [True]) (replicate (2 * 2147483647) 0)
      = Inr ((phase_start [True])
               \<lparr>counter := of_nat 2147483647, feeder := 2147483647, visited := [0..<2147483647]\<rparr>)"
    by (rule solo_rounds) (simp only: target_max order_refl)
  have c: "run_phase 2147483647 (phase_start [True]) (replicate (2 * 2147483647) 0)
     = Inr \<lparr> counter = 0x7FFFFFFF, feeder = 2147483647, visited = [0..<2147483647],
             users = [\<lparr> accessToken = True, at = AtCondition \<rparr>] \<rparr>"
    unfolding solo by (simp add: phase_start_def del: upt_Suc upt.simps)
  have d: "run_phase 2147483647 (phase_start [True]) (replicate (2 * 2147483647) 0 @ [0])
     = Inr \<lparr> counter = 0x80000000, feeder = 2147483647, visited = [0..<2147483647],
             users = [\<lparr> accessToken = True, at = Exited \<rparr>] \<rparr>"
    unfolding run_phase_snoc [OF c]
    by (simp add: user_step_def asLongAs_condition_def getAndIncrement_def
        del: upt_Suc upt.simps)
  have e: "sint (0x7FFFFFFF :: int32) = 2147483647" "sint (0x80000000 :: int32) = - 2147483648"
    by simp_all
  from a b c d e show ?thesis by blast
qed

section \<open>Properties of the views API\<close>

lemma unreserved_not_slash: "uri_unreserved c \<Longrightarrow> c \<noteq> 0x2F"
  by (auto simp: uri_unreserved_def js_def)

lemma upper_hex_digit_not_slash:
  assumes "n < 16"
  shows "(of_char (upper_hex_digit n) :: 16 word) \<noteq> 0x2F"
proof -
  have len: "n < length ''0123456789ABCDEF''" using assms by simp
  have "(of_char (upper_hex_digit n) :: 16 word) = js ''0123456789ABCDEF'' ! n"
    unfolding upper_hex_digit_def js_def by (rule nth_map [OF len, symmetric])
  also have "\<dots> \<in> set (js ''0123456789ABCDEF'')"
    using assms by (intro nth_mem) (simp add: js_def)
  finally show ?thesis by (auto simp: js_def)
qed

lemma percent_octet_no_slash: "0x2F \<notin> set (percent_octet b)"
proof -
  have "unat b < 256" using unsigned_less [of b] by simp
  then have "unat b div 16 < 16" by simp
  moreover have "unat b mod 16 < 16" by simp
  ultimately show ?thesis
    using upper_hex_digit_not_slash [of "unat b div 16"] upper_hex_digit_not_slash [of "unat b mod 16"]
    by (auto simp: percent_octet_def js_def)
qed

lemma percent_escape_no_slash: "0x2F \<notin> set (percent_escape cp)"
  by (auto simp: percent_escape_def percent_octet_no_slash)

lemma then_append_Inr:
  "then_append a r = Inr e \<longleftrightarrow> (\<exists>b. r = Inr b \<and> e = a @ b)"
  by (auto simp: then_append_def split: sum.splits)

lemma encodeURIComponent_no_slash:
  "encodeURIComponent s = Inr e \<Longrightarrow> 0x2F \<notin> set e"
proof (induction s arbitrary: e rule: encodeURIComponent.induct)
  case 1
  then show ?case by simp
next
  case (2 c cs)
  show ?case
  proof (cases "uri_unreserved c")
    case True
    with "2.prems" obtain b where b: "encodeURIComponent cs = Inr b" "e = [c] @ b"
      by (auto simp: then_append_Inr)
    from "2.IH"(1) [OF True b(1)] unreserved_not_slash [OF True] b(2) show ?thesis by auto
  next
    case nu: False
    show ?thesis
    proof (cases "is_surrogate c")
      case False
      with nu "2.prems" obtain b where b: "encodeURIComponent cs = Inr b"
        "e = percent_escape (unat c) @ b"
        by (auto simp: then_append_Inr)
      from "2.IH"(2) [OF nu _ b(1)] False percent_escape_no_slash [of "unat c"] b(2)
      show ?thesis by auto
    next
      case su: True
      with nu "2.prems" have nt: "\<not> is_trailing_surrogate c" by (auto split: if_splits)
      from nu su nt "2.prems" obtain d ds where cs: "cs = d # ds"
        by (cases cs) auto
      from nu su nt "2.prems" cs have td: "is_trailing_surrogate d" by (auto split: if_splits)
      from nu su nt "2.prems" cs td obtain b where b: "encodeURIComponent ds = Inr b"
        "e = percent_escape (surrogate_pair c d) @ b"
        by (auto simp: then_append_Inr)
      from "2.IH"(3) [OF nu _ nt cs td b(1)] su percent_escape_no_slash [of "surrogate_pair c d"] b(2)
      show ?thesis by auto
    qed
  qed
qed

lemma path_segments_no_slash: "0x2F \<notin> set a \<Longrightarrow> path_segments a = [a]"
  by (induction a) auto

lemma path_segments_slash:
  "0x2F \<notin> set a \<Longrightarrow> path_segments (a @ 0x2F # rest) = a # path_segments rest"
  by (induction a) auto


lemma then_append_assoc: "then_append x (then_append y r) = then_append (x @ y) r"
  by (simp add: then_append_def split: sum.splits)

lemma encodeURIComponent_append:
  "encodeURIComponent a = Inr ea \<Longrightarrow>
     encodeURIComponent (a @ b) = then_append ea (encodeURIComponent b)"
proof (induction a arbitrary: ea rule: encodeURIComponent.induct)
  case 1
  then show ?case by (simp add: then_append_def split: sum.splits)
next
  case (2 c cs)
  show ?case
  proof (cases "uri_unreserved c")
    case True
    with "2.prems" obtain r where r: "encodeURIComponent cs = Inr r" "ea = [c] @ r"
      by (auto simp: then_append_Inr)
    from "2.IH"(1) [OF True r(1)] True r(2) show ?thesis
      by (simp add: then_append_assoc)
  next
    case nu: False
    show ?thesis
    proof (cases "is_surrogate c")
      case False
      with nu "2.prems" obtain r where r: "encodeURIComponent cs = Inr r"
        "ea = percent_escape (unat c) @ r"
        by (auto simp: then_append_Inr)
      from "2.IH"(2) [OF nu _ r(1)] False nu r(2) show ?thesis
        by (simp add: then_append_assoc)
    next
      case su: True
      with nu "2.prems" have nt: "\<not> is_trailing_surrogate c" by (auto split: if_splits)
      from nu su nt "2.prems" obtain d ds where cs: "cs = d # ds"
        by (cases cs) auto
      from nu su nt "2.prems" cs have td: "is_trailing_surrogate d" by (auto split: if_splits)
      from nu su nt "2.prems" cs td obtain r where r: "encodeURIComponent ds = Inr r"
        "ea = percent_escape (surrogate_pair c d) @ r"
        by (auto simp: then_append_Inr)
      from "2.IH"(3) [OF nu _ nt cs td r(1)] su nu nt cs td r(2) show ?thesis
        by (simp add: then_append_assoc)
    qed
  qed
qed

lemma percent_escape_unit_separator: "percent_escape 0x1F = js ''%1F''"
  by (simp add: percent_escape_def utf8_encode_def percent_octet_def upper_hex_digit_def)

lemma encodeURIComponent_unit_separator:
  "encodeURIComponent (0x1F # rest) = then_append (js ''%1F'') (encodeURIComponent rest)"
proof -
  have "\<not> uri_unreserved 0x1F" by (simp add: uri_unreserved_def js_def)
  moreover have "\<not> is_surrogate 0x1F" by (simp add: is_surrogate_def)
  ultimately show ?thesis using percent_escape_unit_separator by simp
qed

lemma encodeURIComponent_join:
  "list_all2 (\<lambda>x e. encodeURIComponent x = Inr e) parts es \<Longrightarrow>
     encodeURIComponent (join [0x1F] parts) = Inr (join (js ''%1F'') es)"
proof (induction "[0x1F :: 16 word]" parts arbitrary: es rule: join.induct)
  case 1
  then show ?case by simp
next
  case (2 x)
  then show ?case by (auto simp: list_all2_Cons1)
next
  case (3 x y ys)
  from "3.prems" obtain e es' where es: "es = e # es'" "encodeURIComponent x = Inr e"
    "list_all2 (\<lambda>x e. encodeURIComponent x = Inr e) (y # ys) es'"
    by (auto simp: list_all2_Cons1)
  from es(3) obtain e' es'' where es': "es' = e' # es''" by (auto simp: list_all2_Cons1)
  have "encodeURIComponent (join [0x1F] (x # y # ys))
      = then_append e (encodeURIComponent (0x1F # join [0x1F] (y # ys)))"
    using encodeURIComponent_append [OF es(2)] by simp
  also have "\<dots> = then_append e (then_append (js ''%1F'') (Inr (join (js ''%1F'') es')))"
    using "3.hyps" [OF es(3)] by (simp only: encodeURIComponent_unit_separator)
  also have "\<dots> = Inr (join (js ''%1F'') es)"
    by (simp add: then_append_def es(1) es')
  finally show ?case .
qed

lemma js_append: "js (a @ b) = js a @ js b"
  by (simp add: js_def)

lemma js_slash: "js ''/'' = [0x2F]"
  by (simp add: js_def)

lemma js_word_no_slash:
  "0x2F \<notin> set (js ''namespaces'')" "0x2F \<notin> set (js ''views'')"
  by (simp_all add: js_def)

lemma views_path_segments:
  assumes "0x2F \<notin> set p" and "0x2F \<notin> set n"
  shows "path_segments (js ''/'' @ p @ js ''/namespaces/'' @ n @ js ''/views'')
           = [[], p, js ''namespaces'', n, js ''views'']"
proof -
  have "js ''/'' @ p @ js ''/namespaces/'' @ n @ js ''/views''
      = [] @ 0x2F # (p @ 0x2F # (js ''namespaces'' @ 0x2F # (n @ 0x2F # js ''views'')))"
    by (simp add: js_def)
  then show ?thesis
    using assms js_word_no_slash
    by (simp only: path_segments_slash path_segments_no_slash set_simps empty_iff not_False_eq_True)
qed

lemma view_path_segments:
  assumes "0x2F \<notin> set p" and "0x2F \<notin> set n" and "0x2F \<notin> set v"
  shows "path_segments (js ''/'' @ p @ js ''/namespaces/'' @ n @ js ''/views/'' @ v)
           = [[], p, js ''namespaces'', n, js ''views'', v]"
proof -
  have "js ''/'' @ p @ js ''/namespaces/'' @ n @ js ''/views/'' @ v
      = [] @ 0x2F # (p @ 0x2F # (js ''namespaces'' @ 0x2F # (n @ 0x2F # (js ''views'' @ 0x2F # v))))"
    by (simp add: js_def)
  then show ?thesis
    using assms js_word_no_slash
    by (simp only: path_segments_slash path_segments_no_slash set_simps empty_iff not_False_eq_True)
qed


lemma views_url_Inr:
  assumes "encodeURIComponent prefix = Inr p" and "encodeURIComponent namespaceStr = Inr n"
  shows "views_url prefix namespaceStr = Inr (js ''/'' @ p @ js ''/namespaces/'' @ n @ js ''/views'')"
  using assms by (simp add: views_url_def)

lemma view_url_Inr:
  assumes "encodeURIComponent prefix = Inr p" and "encodeURIComponent namespaceStr = Inr n"
    and "encodeURIComponent viewName = Inr v"
  shows "view_url prefix namespaceStr viewName
           = Inr (js ''/'' @ p @ js ''/namespaces/'' @ n @ js ''/views/'' @ v)"
  using assms by (simp add: view_url_def)

lemma urls_fail:
  assumes "isl (encodeURIComponent namespaceStr)"
  shows "isl (views_url prefix namespaceStr)" "isl (view_url prefix namespaceStr viewName)"
  using assms by (auto simp: views_url_def view_url_def isl_def split: sum.splits)

text \<open>
  Claim C9. For every catalog prefix and namespace array, with \<open>n\<close> the result of
  \<open>encodeURIComponent\<close> on the namespace parts joined by the unit separator U+001F:
  \<open>list\<close> and \<open>create\<close> send their request to \<open>/p/namespaces/n/views\<close> and \<open>get\<close> and
  \<open>delete\<close> to \<open>/p/namespaces/n/views/v\<close>, all four with the same \<open>n\<close>; \<open>n\<close> contains no
  slash, so it is exactly one segment of the path, the one after \<open>namespaces\<close>; when the
  encoding of the joined namespace throws, none of the four sends a request; and when each
  part can be encoded on its own, \<open>n\<close> is the encoded parts joined by \<open>%1F\<close>.
\<close>
theorem views_namespace_one_segment:
  fixes request :: 'b
  shows
  "(\<forall>p n. encodeURIComponent prefix = Inr p
        \<and> encodeURIComponent (join [0x1F] namespace) = Inr n \<longrightarrow>
      (viewsApi_list prefix namespace :: js_error + 'b http_request)
        = Inr \<lparr> http_method = GET,
                url = js ''/'' @ p @ js ''/namespaces/'' @ n @ js ''/views'', body = None \<rparr>
      \<and> viewsApi_create prefix namespace request
        = Inr \<lparr> http_method = POST,
                url = js ''/'' @ p @ js ''/namespaces/'' @ n @ js ''/views'', body = Some request \<rparr>
      \<and> path_segments (js ''/'' @ p @ js ''/namespaces/'' @ n @ js ''/views'')
        = [[], p, js ''namespaces'', n, js ''views'']
      \<and> (\<forall>v. encodeURIComponent viewName = Inr v \<longrightarrow>
            (viewsApi_get prefix namespace viewName :: js_error + 'b http_request)
              = Inr \<lparr> http_method = GET,
                      url = js ''/'' @ p @ js ''/namespaces/'' @ n @ js ''/views/'' @ v, body = None \<rparr>
            \<and> (viewsApi_delete prefix namespace viewName :: js_error + 'b http_request)
              = Inr \<lparr> http_method = DELETE,
                      url = js ''/'' @ p @ js ''/namespaces/'' @ n @ js ''/views/'' @ v, body = None \<rparr>
            \<and> path_segments (js ''/'' @ p @ js ''/namespaces/'' @ n @ js ''/views/'' @ v)
              = [[], p, js ''namespaces'', n, js ''views'', v]))
   \<and> (isl (encodeURIComponent (join [0x1F] namespace)) \<longrightarrow>
        isl (viewsApi_list prefix namespace :: js_error + 'b http_request)
        \<and> isl (viewsApi_get prefix namespace viewName :: js_error + 'b http_request)
        \<and> isl (viewsApi_delete prefix namespace viewName :: js_error + 'b http_request)
        \<and> isl (viewsApi_create prefix namespace request))
   \<and> (\<forall>es. list_all2 (\<lambda>x e. encodeURIComponent x = Inr e) namespace es \<longrightarrow>
        encodeURIComponent (join [0x1F] namespace) = Inr (join (js ''%1F'') es))"
proof (intro conjI allI impI)
  fix p n
  assume h: "encodeURIComponent prefix = Inr p \<and> encodeURIComponent (join [0x1F] namespace) = Inr n"
  then have p: "encodeURIComponent prefix = Inr p"
    and n: "encodeURIComponent (join [0x1F] namespace) = Inr n" by simp_all
  note ps = encodeURIComponent_no_slash [OF p] and ns = encodeURIComponent_no_slash [OF n]
  show "(viewsApi_list prefix namespace :: js_error + 'b http_request)
        = Inr \<lparr> http_method = GET,
                url = js ''/'' @ p @ js ''/namespaces/'' @ n @ js ''/views'', body = None \<rparr>"
    by (simp add: viewsApi_list_def encodeNamespace_def views_url_Inr [OF p n])
  show "viewsApi_create prefix namespace request
        = Inr \<lparr> http_method = POST,
                url = js ''/'' @ p @ js ''/namespaces/'' @ n @ js ''/views'', body = Some request \<rparr>"
    by (simp add: viewsApi_create_def encodeNamespace_def views_url_Inr [OF p n])
  show "path_segments (js ''/'' @ p @ js ''/namespaces/'' @ n @ js ''/views'')
        = [[], p, js ''namespaces'', n, js ''views'']"
    by (rule views_path_segments [OF ps ns])
  fix v
  assume v: "encodeURIComponent viewName = Inr v"
  note vs = encodeURIComponent_no_slash [OF v]
  show "(viewsApi_get prefix namespace viewName :: js_error + 'b http_request)
              = Inr \<lparr> http_method = GET,
                      url = js ''/'' @ p @ js ''/namespaces/'' @ n @ js ''/views/'' @ v, body = None \<rparr>"
    by (simp add: viewsApi_get_def encodeNamespace_def view_url_Inr [OF p n v])
  show "(viewsApi_delete prefix namespace viewName :: js_error + 'b http_request)
              = Inr \<lparr> http_method = DELETE,
                      url = js ''/'' @ p @ js ''/namespaces/'' @ n @ js ''/views/'' @ v, body = None \<rparr>"
    by (simp add: viewsApi_delete_def encodeNamespace_def view_url_Inr [OF p n v])
  show "path_segments (js ''/'' @ p @ js ''/namespaces/'' @ n @ js ''/views/'' @ v)
              = [[], p, js ''namespaces'', n, js ''views'', v]"
    by (rule view_path_segments [OF ps ns vs])
next
  assume f: "isl (encodeURIComponent (join [0x1F] namespace))"
  note u = urls_fail [OF f]
  show "isl (viewsApi_list prefix namespace :: js_error + 'b http_request)"
    using u(1) [of prefix] by (auto simp: viewsApi_list_def encodeNamespace_def isl_def split: sum.splits)
  show "isl (viewsApi_get prefix namespace viewName :: js_error + 'b http_request)"
    using u(2) [of prefix viewName]
    by (auto simp: viewsApi_get_def encodeNamespace_def isl_def split: sum.splits)
  show "isl (viewsApi_delete prefix namespace viewName :: js_error + 'b http_request)"
    using u(2) [of prefix viewName]
    by (auto simp: viewsApi_delete_def encodeNamespace_def isl_def split: sum.splits)
  show "isl (viewsApi_create prefix namespace request)"
    using u(1) [of prefix]
    by (auto simp: viewsApi_create_def encodeNamespace_def isl_def split: sum.splits)
next
  fix es
  assume "list_all2 (\<lambda>x e. encodeURIComponent x = Inr e) namespace es"
  then show "encodeURIComponent (join [0x1F] namespace) = Inr (join (js ''%1F'') es)"
    by (rule encodeURIComponent_join)
qed


theorem views_namespace_one_segment_witness:
  "encodeURIComponent (js ''cat'') = Inr (js ''cat'')
   \<and> encodeURIComponent (join [0x1F] [js ''acc'', js ''tax'']) = Inr (js ''acc%1Ftax'')
   \<and> encodeURIComponent (js ''v/1'') = Inr (js ''v%2F1'')
   \<and> (viewsApi_get (js ''cat'') [js ''acc'', js ''tax''] (js ''v/1'') :: js_error + unit http_request)
       = Inr \<lparr> http_method = GET, url = js ''/cat/namespaces/acc%1Ftax/views/v%2F1'', body = None \<rparr>
   \<and> path_segments (js ''/cat/namespaces/acc%1Ftax/views/v%2F1'')
       = [[], js ''cat'', js ''namespaces'', js ''acc%1Ftax'', js ''views'', js ''v%2F1'']"
proof -
  have p: "encodeURIComponent (js ''cat'') = Inr (js ''cat'')"
    by (simp add: js_def uri_unreserved_def then_append_def)
  have n: "encodeURIComponent (join [0x1F] [js ''acc'', js ''tax'']) = Inr (js ''acc%1Ftax'')"
    by (simp add: js_def uri_unreserved_def then_append_def is_surrogate_def percent_escape_def
      utf8_encode_def percent_octet_def upper_hex_digit_def)
  have v: "encodeURIComponent (js ''v/1'') = Inr (js ''v%2F1'')"
    by (simp add: js_def uri_unreserved_def then_append_def is_surrogate_def percent_escape_def
      utf8_encode_def percent_octet_def upper_hex_digit_def)
  have u: "js ''/'' @ js ''cat'' @ js ''/namespaces/'' @ js ''acc%1Ftax'' @ js ''/views/'' @ js ''v%2F1''
      = js ''/cat/namespaces/acc%1Ftax/views/v%2F1''"
    by (simp add: js_def)
  from views_namespace_one_segment [where prefix = "js ''cat''"
      and namespace = "[js ''acc'', js ''tax'']" and viewName = "js ''v/1''" and request = "()"]
    p n v
  have "(viewsApi_get (js ''cat'') [js ''acc'', js ''tax''] (js ''v/1'') :: js_error + unit http_request)
       = Inr \<lparr> http_method = GET,
           url = js ''/'' @ js ''cat'' @ js ''/namespaces/'' @ js ''acc%1Ftax'' @ js ''/views/'' @ js ''v%2F1'',
           body = None \<rparr>
    \<and> path_segments (js ''/'' @ js ''cat'' @ js ''/namespaces/'' @ js ''acc%1Ftax'' @ js ''/views/'' @ js ''v%2F1'')
       = [[], js ''cat'', js ''namespaces'', js ''acc%1Ftax'', js ''views'', js ''v%2F1'']"
    by blast
  with p n v show ?thesis unfolding u by blast
qed

section \<open>Properties of the table query\<close>

text \<open>
  Claim C10. Loading table details, in the page and in the drawer alike: the first call is
  the Iceberg fetch; the generic-table fetch is made exactly when the Iceberg fetch throws,
  after it and with the same arguments; an Iceberg result or, failing that, a generic result
  is returned; and when both fetches throw, the exception thrown is the Iceberg one,
  whatever the generic-table exception was.
\<close>
theorem table_query_iceberg_first:
  "(\<exists>rest. snd (TableDetails_queryFn api c ns t) = Get c ns t # rest
        \<and> (rest = [] \<or> rest = [GetGeneric c ns t]))
   \<and> (GetGeneric c ns t \<in> set (snd (TableDetails_queryFn api c ns t)))
        = isl (tablesApi_get api c ns t)
   \<and> (\<forall>r. tablesApi_get api c ns t = Inr r \<longrightarrow>
         fst (TableDetails_queryFn api c ns t) = Inr (LoadTableResult r))
   \<and> (\<forall>e g. tablesApi_get api c ns t = Inl e \<and> tablesApi_getGeneric api c ns t = Inr g \<longrightarrow>
         fst (TableDetails_queryFn api c ns t) = Inr (LoadGenericTableResponse g))
   \<and> (\<forall>e e'. tablesApi_get api c ns t = Inl e \<and> tablesApi_getGeneric api c ns t = Inl e' \<longrightarrow>
         fst (TableDetails_queryFn api c ns t) = Inl e)
   \<and> TableDetailsDrawer_queryFn api c ns t = TableDetails_queryFn api c ns t"
  by (auto simp: TableDetails_queryFn_def TableDetailsDrawer_queryFn_def split: sum.splits)

theorem table_query_iceberg_first_witness:
  "tablesApi_get \<lparr> tablesApi_get = (\<lambda>_ _ _. Inl ''iceberg: 404''),
                   tablesApi_getGeneric = (\<lambda>_ _ _. Inl ''generic: 500'') \<rparr>
       (js ''cat'') [js ''ns''] (js ''t'') = (Inl ''iceberg: 404'' :: string + unit)
   \<and> tablesApi_getGeneric \<lparr> tablesApi_get = (\<lambda>_ _ _. Inl ''iceberg: 404''),
                   tablesApi_getGeneric = (\<lambda>_ _ _. Inl ''generic: 500'') \<rparr>
       (js ''cat'') [js ''ns''] (js ''t'') = (Inl ''generic: 500'' :: string + unit)
   \<and> fst (TableDetailsDrawer_queryFn
         \<lparr> tablesApi_get = (\<lambda>_ _ _. Inl ''iceberg: 404''),
           tablesApi_getGeneric = (\<lambda>_ _ _. Inl ''generic: 500'') \<rparr>
         (js ''cat'') [js ''ns''] (js ''t''))
       = (Inl ''iceberg: 404'' :: string + (unit, unit) table_data)"
  using table_query_iceberg_first
    [of "\<lparr> tablesApi_get = (\<lambda>_ _ _. Inl ''iceberg: 404''),
           tablesApi_getGeneric = (\<lambda>_ _ _. (Inl ''generic: 500'' :: string + unit)) \<rparr>
         :: (string, unit, unit) tablesApi"
       "js ''cat''" "[js ''ns'']" "js ''t''"]
  by simp

section \<open>Evaluated digests\<close>

text \<open>The three examples of the README: \<open>NS_0\<close>, \<open>T_0\<close> and \<open>V_0\<close> mangled.\<close>

lemma readme_NS_0:
  "fst (maybeMangleNs (new_Mangler True) 0) = ''f5a4d86558ed1f7fddec42ce11d8ee3a''"
  by code_simp

lemma readme_T_0:
  "fst (maybeMangleTable (new_Mangler True) 0) = ''ab4ffa55f688360e0c12aef543c18351''"
  by code_simp

lemma readme_V_0:
  "fst (maybeMangleView (new_Mangler True) 0) = ''9ef5db61af0c0d69875ff753a249bd2f''"
  by code_simp

lemma mangled_NS_1:
  "fst (maybeMangleNs (new_Mangler True) 1) = ''e3fa7fd44796b949fce728cb334f3c15''"
  by code_simp

theorem mangled_name_deterministic_hex32_witness:
  "fst (maybeMangleNs (mangler_after (new_Mangler True) [(''T_'', 7), (''NS_'', 0)]) 0)
     = ''f5a4d86558ed1f7fddec42ce11d8ee3a''
   \<and> fst (maybeMangleTable (mangler_after (new_Mangler True) [(''T_'', 7), (''NS_'', 0)]) 0)
     = ''ab4ffa55f688360e0c12aef543c18351''
   \<and> fst (maybeMangleView (mangler_after (new_Mangler True) [(''T_'', 7), (''NS_'', 0)]) 0)
     = ''9ef5db61af0c0d69875ff753a249bd2f''"
  using mangled_name_deterministic_hex32 [of "[(''T_'', 7), (''NS_'', 0)]" 0]
  by (simp only: readme_NS_0 readme_T_0 readme_V_0)

text \<open>
  Claim C7. The mangler keeps one \<open>MessageDigest\<close> for all its callers; the instance is
  mutable and is not created per call. When two callers ask for the names of namespaces 0
  and 1 and their steps interleave (feed, feed, digest, digest), the first receives the
  digest of \<open>NS_0NS_1\<close> and the second the digest of the empty input, neither of which is
  the name the mangler returns for that ordinal when called alone; taking turns, both
  receive the right names.
\<close>
theorem shared_digest_interleaved_calls:
  "concurrent_calls (new_Mangler True) [(''NS_'', 0), (''NS_'', 1)] [0, 1, 0, 1]
     = [Returned ''2fdf3b38b38fb1cd71c7d052474b6bd1'', Returned ''d41d8cd98f00b204e9800998ecf8427e'']
   \<and> concurrent_calls (new_Mangler True) [(''NS_'', 0), (''NS_'', 1)] [0, 0, 1, 1]
     = [Returned (fst (maybeMangleNs (new_Mangler True) 0)),
        Returned (fst (maybeMangleNs (new_Mangler True) 1))]
   \<and> fst (maybeMangleNs (new_Mangler True) 0) = ''f5a4d86558ed1f7fddec42ce11d8ee3a''
   \<and> fst (maybeMangleNs (new_Mangler True) 1) = ''e3fa7fd44796b949fce728cb334f3c15''"
proof -
  have a: "concurrent_calls (new_Mangler True) [(''NS_'', 0), (''NS_'', 1)] [0, 1, 0, 1]
     = [Returned ''2fdf3b38b38fb1cd71c7d052474b6bd1'', Returned ''d41d8cd98f00b204e9800998ecf8427e'']"
    by code_simp
  have b: "concurrent_calls (new_Mangler True) [(''NS_'', 0), (''NS_'', 1)] [0, 0, 1, 1]
     = [Returned (fst (maybeMangleNs (new_Mangler True) 0)),
        Returned (fst (maybeMangleNs (new_Mangler True) 1))]"
    by (simp add: concurrent_calls_def caller_step_def new_Mangler_def maybeMangleNs_def
        maybeMangle_def MessageDigest_digest_input_def MessageDigest_digest_def
        MessageDigest_update_def MessageDigest_getInstance_def)
  from a b readme_NS_0 mangled_NS_1 show ?thesis by simp
qed

end
